theory Spec2Isabelle
  imports Complex_Main "HOL-Library.Multiset" "HOL-Library.Product_Lexorder"
    "HOL-Library.List_Lexorder" "HOL-Library.Char_ord"
begin


section \<open>Python values shared by the components\<close>

text \<open>
  The exceptions the modelled code can raise. A function that can raise returns
  \<open>py_error + 'a\<close>, with \<open>Inl\<close> for the exception.
\<close>

datatype py_error = ZeroDivisionError | IndexError | ValueError

text \<open>
  Python list indexing \<open>xs[i]\<close>: a negative index counts from the end, and an index
  out of range raises IndexError.
\<close>

definition py_index :: "nat \<Rightarrow> int \<Rightarrow> nat option" where
  "py_index len i =
     (if 0 \<le> i \<and> i < int len then Some (nat i)
      else if i < 0 \<and> - int len \<le> i then Some (nat (i + int len))
      else None)"

definition py_get :: "'a list \<Rightarrow> int \<Rightarrow> py_error + 'a" where
  "py_get xs i =
     (case py_index (length xs) i of None \<Rightarrow> Inl IndexError | Some j \<Rightarrow> Inr (xs ! j))"

definition py_set :: "'a list \<Rightarrow> int \<Rightarrow> 'a \<Rightarrow> py_error + 'a list" where
  "py_set xs i v =
     (case py_index (length xs) i of None \<Rightarrow> Inl IndexError | Some j \<Rightarrow> Inr (xs[j := v]))"

text \<open>\<open>[v] * n\<close>: a negative \<open>n\<close> gives the empty list, as \<open>range(n)\<close> is empty then.\<close>

definition py_repeat :: "'a \<Rightarrow> int \<Rightarrow> 'a list" where
  "py_repeat v n = replicate (nat n) v"

definition py_range :: "int \<Rightarrow> nat list" where
  "py_range n = [0..<nat n]"

section \<open>Count-Min Sketch (count\_min\_sketch.py)\<close>

text \<open>
  \<open>mmh3.hash\<close> is an external library function: it is the parameter \<open>mmh3\<close> of the
  operations. The draws of \<open>random.randint\<close> after \<open>random.seed(seed)\<close> are the
  parameter \<open>randint\<close>, the \<open>i\<close>-th draw being \<open>randint i\<close>.
\<close>

record CountMinSketch =
  width :: int
  depth :: int
  tables :: "int list list"
  seeds :: "int list"

definition CountMinSketch_init :: "int \<Rightarrow> int \<Rightarrow> (nat \<Rightarrow> int) \<Rightarrow> py_error + CountMinSketch" where
  "CountMinSketch_init w d randint =
     Inr \<lparr> width = w, depth = d,
           tables = map (\<lambda>_. py_repeat 0 w) (py_range d),
           seeds = map randint (py_range d) \<rparr>"

text \<open>
  \<open>_hashes\<close> is a generator: the \<open>i\<close>-th hash \<open>mmh3.hash(key, s) % self.width\<close> is
  computed when the loop asks for it, so a zero width raises at the first seed.
  Python's \<open>%\<close> on integers takes the sign of the divisor, as \<open>mod\<close> on \<open>int\<close> does.
\<close>

definition hash_at :: "(string \<Rightarrow> int \<Rightarrow> int) \<Rightarrow> int \<Rightarrow> string \<Rightarrow> int \<Rightarrow> py_error + int" where
  "hash_at mmh3 w key s = (if w = 0 then Inl ZeroDivisionError else Inr (mmh3 key s mod w))"

text \<open>The loop of \<open>add\<close>: \<open>self.tables[i][idx] += count\<close> for the \<open>i\<close>-th seed.\<close>

fun add_loop :: "(string \<Rightarrow> int \<Rightarrow> int) \<Rightarrow> int \<Rightarrow> string \<Rightarrow> int \<Rightarrow> nat \<Rightarrow> int list
                 \<Rightarrow> int list list \<Rightarrow> py_error + int list list" where
  "add_loop mmh3 w key cnt i [] tabs = Inr tabs"
| "add_loop mmh3 w key cnt i (s # ss) tabs =
     (case hash_at mmh3 w key s of
        Inl e \<Rightarrow> Inl e
      | Inr idx \<Rightarrow>
         (case py_get tabs (int i) of
            Inl e \<Rightarrow> Inl e
          | Inr row \<Rightarrow>
             (case py_get row idx of
                Inl e \<Rightarrow> Inl e
              | Inr v \<Rightarrow>
                 (case py_set row idx (v + cnt) of
                    Inl e \<Rightarrow> Inl e
                  | Inr row' \<Rightarrow> add_loop mmh3 w key cnt (Suc i) ss (tabs[i := row'])))))"

definition add :: "(string \<Rightarrow> int \<Rightarrow> int) \<Rightarrow> CountMinSketch \<Rightarrow> string \<Rightarrow> int \<Rightarrow> py_error + CountMinSketch" where
  "add mmh3 c key cnt =
     (case add_loop mmh3 (width c) key cnt 0 (seeds c) (tables c) of
        Inl e \<Rightarrow> Inl e
      | Inr tabs \<Rightarrow> Inr (c\<lparr>tables := tabs\<rparr>))"

text \<open>The generator expression of \<open>estimate\<close>: the cells \<open>self.tables[i][idx]\<close>, in order.\<close>

fun estimate_cells :: "(string \<Rightarrow> int \<Rightarrow> int) \<Rightarrow> int \<Rightarrow> string \<Rightarrow> nat \<Rightarrow> int list
                 \<Rightarrow> int list list \<Rightarrow> py_error + int list" where
  "estimate_cells mmh3 w key i [] tabs = Inr []"
| "estimate_cells mmh3 w key i (s # ss) tabs =
     (case hash_at mmh3 w key s of
        Inl e \<Rightarrow> Inl e
      | Inr idx \<Rightarrow>
         (case py_get tabs (int i) of
            Inl e \<Rightarrow> Inl e
          | Inr row \<Rightarrow>
             (case py_get row idx of
                Inl e \<Rightarrow> Inl e
              | Inr v \<Rightarrow>
                 (case estimate_cells mmh3 w key (Suc i) ss tabs of
                    Inl e \<Rightarrow> Inl e
                  | Inr vs \<Rightarrow> Inr (v # vs)))))"

text \<open>\<open>min\<close> of an empty iterable raises ValueError.\<close>

definition py_min :: "int list \<Rightarrow> py_error + int" where
  "py_min vs = (case vs of [] \<Rightarrow> Inl ValueError | v # rest \<Rightarrow> Inr (fold min rest v))"

definition estimate :: "(string \<Rightarrow> int \<Rightarrow> int) \<Rightarrow> CountMinSketch \<Rightarrow> string \<Rightarrow> py_error + int" where
  "estimate mmh3 c key =
     (case estimate_cells mmh3 (width c) key 0 (seeds c) (tables c) of
        Inl e \<Rightarrow> Inl e
      | Inr vs \<Rightarrow> py_min vs)"

text \<open>A sequence of \<open>add(key, count)\<close> calls; the first exception ends it.\<close>

fun add_all :: "(string \<Rightarrow> int \<Rightarrow> int) \<Rightarrow> CountMinSketch \<Rightarrow> (string \<times> int) list \<Rightarrow> py_error + CountMinSketch" where
  "add_all mmh3 c [] = Inr c"
| "add_all mmh3 c ((key, cnt) # rest) =
     (case add mmh3 c key cnt of Inl e \<Rightarrow> Inl e | Inr c' \<Rightarrow> add_all mmh3 c' rest)"

text \<open>The true total added for a key by a sequence of calls.\<close>

definition true_count :: "(string \<times> int) list \<Rightarrow> string \<Rightarrow> int" where
  "true_count calls key = sum_list (map snd (filter (\<lambda>kc. fst kc = key) calls))"

section \<open>Windowed bit counter (dgim.py)\<close>

text \<open>
  A bucket is the dictionary \<open>{'time': ts, 'size': n}\<close>; the list holds the newest
  bucket first. \<open>ts\<close> is the timestamp the caller passes.
\<close>

record bucket =
  time_b :: int
  size_b :: int

record DGIM =
  window :: int
  buckets :: "bucket list"

definition DGIM_init :: "int \<Rightarrow> DGIM" where
  "DGIM_init window_size = \<lparr> window = window_size, buckets = [] \<rparr>"

text \<open>\<open>xs.pop(i)\<close> for an index in range.\<close>

definition pop_at :: "nat \<Rightarrow> 'a list \<Rightarrow> 'a list" where
  "pop_at i xs = take i xs @ drop (Suc i) xs"

text \<open>
  The \<open>while i+2 < len(self.buckets)\<close> loop of \<open>add_bit\<close>: on three equal sizes at
  \<open>i, i+1, i+2\<close> the size of bucket \<open>i\<close> is added to bucket \<open>i+1\<close> and bucket \<open>i\<close> is
  popped (\<open>i\<close> stays); otherwise \<open>i\<close> advances.
\<close>

function merge_loop :: "nat \<Rightarrow> bucket list \<Rightarrow> bucket list" where
  "merge_loop i bs =
     (if i + 2 < length bs then
        (if size_b (bs ! i) = size_b (bs ! (i + 1)) \<and> size_b (bs ! (i + 1)) = size_b (bs ! (i + 2))
         then merge_loop i
                (pop_at i (bs[i + 1 := (bs ! (i + 1))\<lparr>size_b := size_b (bs ! (i + 1)) + size_b (bs ! i)\<rparr>]))
         else merge_loop (i + 1) bs)
      else bs)"
  by pat_completeness auto
termination
  by (relation "measure (\<lambda>(i, bs). 2 * length bs - i)") (auto simp: pop_at_def)

declare merge_loop.simps [simp del]

definition add_bit :: "DGIM \<Rightarrow> bool \<Rightarrow> int \<Rightarrow> DGIM" where
  "add_bit dg bitv ts =
     (let bs = (if bitv then merge_loop 0 (\<lparr> time_b = ts, size_b = 1 \<rparr> # buckets dg) else buckets dg);
          cutoff = ts - window dg
      in dg\<lparr>buckets := filter (\<lambda>b. time_b b \<ge> cutoff) bs\<rparr>)"

text \<open>
  The loop of \<open>query\<close>, with its \<open>break\<close> at the first bucket older than the cutoff;
  \<open>last_bucket\<close> is \<open>None\<close> until a bucket has been counted in full.
\<close>

fun query_loop :: "int \<Rightarrow> bucket list \<Rightarrow> int \<Rightarrow> bucket option \<Rightarrow> int" where
  "query_loop cutoff [] tot last_bucket = tot"
| "query_loop cutoff (b # bs) tot last_bucket =
     (if time_b b < cutoff
      then (if last_bucket = None then tot + size_b b div 2 else tot)
      else query_loop cutoff bs (tot + size_b b) (Some b))"

definition query :: "DGIM \<Rightarrow> int \<Rightarrow> int" where
  "query dg ts = query_loop (ts - window dg) (buckets dg) 0 None"

text \<open>A sequence of \<open>add_bit(bit, ts)\<close> calls.\<close>

definition add_bits :: "DGIM \<Rightarrow> (bool \<times> int) list \<Rightarrow> DGIM" where
  "add_bits dg calls = fold (\<lambda>(bitv, ts) d. add_bit d bitv ts) calls dg"

text \<open>How many buckets of a given size the list holds.\<close>

definition buckets_of_size :: "DGIM \<Rightarrow> int \<Rightarrow> nat" where
  "buckets_of_size dg s = length (filter (\<lambda>b. size_b b = s) (buckets dg))"

section \<open>Running moments (online\_moments.py)\<close>

text \<open>
  Python floats are modelled as reals; \<open>/\<close> on floats raises ZeroDivisionError on a
  zero divisor. On the inputs evaluated below every intermediate value is a small
  integer, which a float holds exactly.
\<close>

definition py_fdiv :: "real \<Rightarrow> real \<Rightarrow> py_error + real" where
  "py_fdiv a b = (if b = 0 then Inl ZeroDivisionError else Inr (a / b))"

record RunningMoments =
  n_rm :: int
  mean_rm :: real
  M2 :: real
  M3 :: real
  M4 :: real

definition RunningMoments_init :: RunningMoments where
  "RunningMoments_init = \<lparr> n_rm = 0, mean_rm = 0, M2 = 0, M3 = 0, M4 = 0 \<rparr>"

definition update :: "RunningMoments \<Rightarrow> real \<Rightarrow> py_error + RunningMoments" where
  "update r x =
     (let n1 = n_rm r;
          n' = n_rm r + 1;
          delta = x - mean_rm r
      in case py_fdiv delta (real_of_int n') of
           Inl e \<Rightarrow> Inl e
         | Inr delta_n \<Rightarrow>
            (let delta_n2 = delta_n * delta_n;
                 term1 = delta * delta_n * real_of_int n1;
                 M4' = M4 r + (term1 * delta_n2 * real_of_int (n' * n' - 3 * n' + 3)
                               + 6 * delta_n2 * M2 r - 4 * delta_n * M3 r);
                 M3' = M3 r + (term1 * delta_n * real_of_int (n' - 2) - 3 * delta_n * M2 r);
                 M2' = M2 r + term1
             in Inr \<lparr> n_rm = n', mean_rm = mean_rm r + delta_n, M2 = M2', M3 = M3', M4 = M4' \<rparr>))"

fun update_all :: "RunningMoments \<Rightarrow> real list \<Rightarrow> py_error + RunningMoments" where
  "update_all r [] = Inr r"
| "update_all r (x # xs) = (case update r x of Inl e \<Rightarrow> Inl e | Inr r' \<Rightarrow> update_all r' xs)"

definition get_mean :: "RunningMoments \<Rightarrow> real" where
  "get_mean r = (if n_rm r \<noteq> 0 then mean_rm r else 0)"

definition get_variance :: "RunningMoments \<Rightarrow> py_error + real" where
  "get_variance r = (if n_rm r > 1 then py_fdiv (M2 r) (real_of_int (n_rm r - 1)) else Inr 0)"

text \<open>
  \<open>self.M2 ** 1.5\<close> is \<open>powr\<close> on a non-negative float (\<open>0.0 ** 1.5\<close> is \<open>0.0\<close>);
  \<open>M2\<close> only grows by \<open>term1\<close>, a square times \<open>n1 / n\<close>, so it is never negative.
\<close>

definition get_skewness :: "RunningMoments \<Rightarrow> py_error + real" where
  "get_skewness r =
     (if n_rm r < 3 then Inr 0
      else py_fdiv (sqrt (real_of_int (n_rm r)) * M3 r) (M2 r powr (3 / 2)))"

definition get_kurtosis :: "RunningMoments \<Rightarrow> py_error + real" where
  "get_kurtosis r =
     (if n_rm r < 4 then Inr 0
      else (case py_fdiv (real_of_int (n_rm r) * M4 r) (M2 r * M2 r) of
              Inl e \<Rightarrow> Inl e
            | Inr q \<Rightarrow> Inr (q - 3)))"

section \<open>Second frequency moment (ams\_f2.py)\<close>

text \<open>
  \<open>sign_hash x seed\<close> stands for \<open>int(hashlib.sha256(f"{x}:{seed}".encode()).hexdigest(), 16)\<close>,
  and \<open>randint i\<close> for the \<open>i\<close>-th draw of \<open>random.randint(1, 2**31-1)\<close>.
\<close>

record AMSF2 =
  k_ams :: int
  sign_hashes :: "int list"
  Z_ams :: "int list"

definition AMSF2_init :: "int \<Rightarrow> (nat \<Rightarrow> int) \<Rightarrow> py_error + AMSF2" where
  "AMSF2_init k randint =
     Inr \<lparr> k_ams = k, sign_hashes = map randint (py_range k), Z_ams = py_repeat 0 k \<rparr>"

definition sign_ams :: "('x \<Rightarrow> int \<Rightarrow> nat) \<Rightarrow> 'x \<Rightarrow> int \<Rightarrow> int" where
  "sign_ams sign_hash x seed = (if sign_hash x seed mod 2 = 0 then 1 else - 1)"

fun update_loop :: "('x \<Rightarrow> int \<Rightarrow> nat) \<Rightarrow> int list \<Rightarrow> 'x \<Rightarrow> int \<Rightarrow> nat list \<Rightarrow> int list \<Rightarrow> py_error + int list" where
  "update_loop sign_hash hs item v [] zs = Inr zs"
| "update_loop sign_hash hs item v (i # is) zs =
     (case py_get hs (int i) of
        Inl e \<Rightarrow> Inl e
      | Inr seed \<Rightarrow>
         (case py_get zs (int i) of
            Inl e \<Rightarrow> Inl e
          | Inr z \<Rightarrow>
             (case py_set zs (int i) (z + sign_ams sign_hash item seed * v) of
                Inl e \<Rightarrow> Inl e
              | Inr zs' \<Rightarrow> update_loop sign_hash hs item v is zs')))"

definition update_ams :: "('x \<Rightarrow> int \<Rightarrow> nat) \<Rightarrow> AMSF2 \<Rightarrow> 'x \<Rightarrow> int \<Rightarrow> py_error + AMSF2" where
  "update_ams sign_hash a item v =
     (case update_loop sign_hash (sign_hashes a) item v (py_range (k_ams a)) (Z_ams a) of
        Inl e \<Rightarrow> Inl e
      | Inr zs \<Rightarrow> Inr (a\<lparr>Z_ams := zs\<rparr>))"

definition estimate_F2 :: "AMSF2 \<Rightarrow> py_error + real" where
  "estimate_F2 a =
     (let vals = map (\<lambda>z. z * z) (Z_ams a)
      in py_fdiv (real_of_int (sum_list vals)) (real (length vals)))"

section \<open>Online transition model (markov\_module.py)\<close>

text \<open>
  State labels have type \<open>'s\<close>. The numpy float64 matrices are lists of rows over the
  reals, so rounding and overflow are outside the model: the theorems about this
  component either use no property of the arithmetic, or evaluate it on inputs where
  float64 gives the same counts and the same comparisons. \<open>idx\<close> is the dictionary
  \<open>{s: i for i, s in enumerate(self.states)}\<close>, where a repeated label keeps its last
  index.
\<close>

record 's OnlineMarkovModel =
  states :: "'s list"
  idx :: "'s \<rightharpoonup> nat"
  n_states :: nat
  counts :: "real list list"
  smoothing :: real
  cached_P :: "real list list option"

definition mk_idx :: "'s list \<Rightarrow> ('s \<rightharpoonup> nat)" where
  "mk_idx sts = fold (\<lambda>(i, s) m. m(s \<mapsto> i)) (enumerate 0 sts) Map.empty"

definition OnlineMarkovModel_init :: "'s list \<Rightarrow> real \<Rightarrow> py_error + 's OnlineMarkovModel" where
  "OnlineMarkovModel_init sts sm =
     Inr \<lparr> states = sts, idx = mk_idx sts, n_states = length sts,
           counts = replicate (length sts) (replicate (length sts) 0),
           smoothing = sm, cached_P = None \<rparr>"

definition observe_transition :: "'s OnlineMarkovModel \<Rightarrow> 's \<Rightarrow> 's \<Rightarrow> real \<Rightarrow> 's OnlineMarkovModel" where
  "observe_transition m from_state to_state weight =
     (case idx m from_state of
        None \<Rightarrow> m
      | Some i \<Rightarrow>
         (case idx m to_state of
            None \<Rightarrow> m
          | Some j \<Rightarrow>
             m\<lparr>counts := (counts m)[i := (counts m ! i)[j := counts m ! i ! j + weight]],
               cached_P := None\<rparr>))"

text \<open>
  \<open>transition_matrix\<close> returns the cached matrix when there is one, and otherwise
  computes and caches it; the model returns the matrix and the updated object.
\<close>

definition compute_P :: "real list list \<Rightarrow> real \<Rightarrow> real list list" where
  "compute_P cs sm =
     (let C = map (map (\<lambda>c. c + sm)) cs;
          row_sums = map sum_list C;
          row_sums' = map (\<lambda>r. if r = 0 then 1 else r) row_sums
      in map (\<lambda>(row, r). map (\<lambda>c. c / r) row) (zip C row_sums'))"

definition transition_matrix :: "'s OnlineMarkovModel \<Rightarrow> real list list \<times> 's OnlineMarkovModel" where
  "transition_matrix m =
     (case cached_P m of
        Some P \<Rightarrow> (P, m)
      | None \<Rightarrow> (let P = compute_P (counts m) (smoothing m) in (P, m\<lparr>cached_P := Some P\<rparr>)))"

text \<open>\<open>v.dot(P)\<close> for a vector of length \<open>n\<close> and an \<open>n \<times> n\<close> matrix.\<close>

definition vec_dot :: "nat \<Rightarrow> real list \<Rightarrow> real list list \<Rightarrow> real list" where
  "vec_dot n v P = map (\<lambda>j. sum_list (map (\<lambda>i. v ! i * P ! i ! j) [0..<n])) [0..<n]"

definition predict_distribution ::
    "'s OnlineMarkovModel \<Rightarrow> 's \<Rightarrow> int \<Rightarrow> ('s \<rightharpoonup> real) option \<times> 's OnlineMarkovModel" where
  "predict_distribution m current_state steps =
     (case idx m current_state of
        None \<Rightarrow> (None, m)
      | Some i0 \<Rightarrow>
         (let (P, m') = transition_matrix m;
              v0 = (replicate (n_states m) 0)[i0 := 1];
              v = ((\<lambda>v. vec_dot (n_states m) v P) ^^ nat steps) v0
          in (Some (fold (\<lambda>i d. d(states m ! i \<mapsto> v ! i)) [0..<n_states m] Map.empty), m')))"

text \<open>The integer matrices of \<open>is_aperiodic\<close>: \<open>M.dot(A)\<close> and \<open>(\<dots> > 0).astype(int)\<close>.\<close>

definition mat_dot :: "nat \<Rightarrow> int list list \<Rightarrow> int list list \<Rightarrow> int list list" where
  "mat_dot n M A =
     map (\<lambda>i. map (\<lambda>j. sum_list (map (\<lambda>l. M ! i ! l * A ! l ! j) [0..<n])) [0..<n]) [0..<n]"

definition positive_int :: "int list list \<Rightarrow> int list list" where
  "positive_int M = map (map (\<lambda>x. if x > 0 then 1 else 0)) M"

fun power_loop :: "nat \<Rightarrow> int list list \<Rightarrow> int list list \<Rightarrow> nat \<Rightarrow> bool" where
  "power_loop n A M 0 = False"
| "power_loop n A M (Suc r) =
     (if list_all (\<lambda>i. M ! i ! i > 0) [0..<n] then True
      else power_loop n A (positive_int (mat_dot n M A)) r)"

definition is_aperiodic :: "'s OnlineMarkovModel \<Rightarrow> bool \<times> 's OnlineMarkovModel" where
  "is_aperiodic m =
     (let (P, m') = transition_matrix m
      in if list_ex (\<lambda>i. P ! i ! i > 1 / 10 ^ 12) [0..<n_states m] then (True, m')
         else (let max_power = 10;
                   A = map (map (\<lambda>p. if p > 1 / 10 ^ 12 then (1::int) else 0)) P
               in (power_loop (n_states m) A A max_power, m')))"

text \<open>Calls on a model, and the object after a sequence of them.\<close>

datatype 's markov_call =
  Observe 's 's real | TransitionMatrix | Predict 's int | IsAperiodic

fun apply_call :: "'s OnlineMarkovModel \<Rightarrow> 's markov_call \<Rightarrow> 's OnlineMarkovModel" where
  "apply_call m (Observe f t w) = observe_transition m f t w"
| "apply_call m TransitionMatrix = snd (transition_matrix m)"
| "apply_call m (Predict s steps) = snd (predict_distribution m s steps)"
| "apply_call m IsAperiodic = snd (is_aperiodic m)"

definition apply_calls :: "'s OnlineMarkovModel \<Rightarrow> 's markov_call list \<Rightarrow> 's OnlineMarkovModel" where
  "apply_calls m cs = fold (\<lambda>c m. apply_call m c) cs m"


section \<open>heapq (Python standard library)\<close>

text \<open>
  The sampler keeps its entries with \<open>heapq.heappush\<close> and \<open>heapq.heapreplace\<close>; these
  are the library's list algorithms, on any linearly ordered element type.
\<close>

function siftdown_loop :: "'a::linorder list \<Rightarrow> nat \<Rightarrow> 'a \<Rightarrow> nat \<Rightarrow> 'a list" where
  "siftdown_loop h startpos newitem pos =
     (if pos > startpos then
        (let parentpos = (pos - 1) div 2;
             parent = h ! parentpos
         in if newitem < parent then siftdown_loop (h[pos := parent]) startpos newitem parentpos
            else h[pos := newitem])
      else h[pos := newitem])"
  by pat_completeness auto
termination
  by (relation "measure (\<lambda>(h, startpos, newitem, pos). pos)") auto

declare siftdown_loop.simps [simp del]

definition siftdown :: "'a::linorder list \<Rightarrow> nat \<Rightarrow> nat \<Rightarrow> 'a list" where
  "siftdown h startpos pos = siftdown_loop h startpos (h ! pos) pos"

function siftup_loop :: "'a::linorder list \<Rightarrow> nat \<Rightarrow> nat \<Rightarrow> nat \<times> 'a list" where
  "siftup_loop h endpos pos =
     (let childpos = 2 * pos + 1
      in if childpos < endpos then
           (let rightpos = childpos + 1;
                childpos' = (if rightpos < endpos \<and> \<not> h ! childpos < h ! rightpos
                             then rightpos else childpos)
            in siftup_loop (h[pos := h ! childpos']) endpos childpos')
         else (pos, h))"
  by pat_completeness auto
termination
  by (relation "measure (\<lambda>(h, endpos, pos). endpos - pos)") auto

declare siftup_loop.simps [simp del]

definition siftup :: "'a::linorder list \<Rightarrow> nat \<Rightarrow> 'a list" where
  "siftup h pos =
     (let newitem = h ! pos;
          (pos', h') = siftup_loop h (length h) pos
      in siftdown (h'[pos' := newitem]) pos pos')"

definition heappush :: "'a::linorder list \<Rightarrow> 'a \<Rightarrow> 'a list" where
  "heappush h item = siftdown (h @ [item]) 0 (length h)"

definition heapreplace :: "'a::linorder list \<Rightarrow> 'a \<Rightarrow> py_error + ('a \<times> 'a list)" where
  "heapreplace h item =
     (case py_get h 0 of
        Inl e \<Rightarrow> Inl e
      | Inr returnitem \<Rightarrow> Inr (returnitem, siftup (h[0 := item]) 0))"

section \<open>Min-wise sampler (minwise\_sampler.py)\<close>

text \<open>
  \<open>hash_item s\<close> stands for \<open>int(hashlib.sha256(s.encode('utf-8')).hexdigest(), 16)\<close>.
  The heap holds the tuples \<open>(-hval, item)\<close>, compared as Python compares tuples.
\<close>

record MinWiseSampler =
  k_mw :: int
  heap :: "(int \<times> string) list"

definition MinWiseSampler_init :: "int \<Rightarrow> MinWiseSampler" where
  "MinWiseSampler_init k = \<lparr> k_mw = k, heap = [] \<rparr>"

definition consider_item :: "(string \<Rightarrow> nat) \<Rightarrow> MinWiseSampler \<Rightarrow> string \<Rightarrow> py_error + MinWiseSampler" where
  "consider_item hash_item s item =
     (let hval = int (hash_item item)
      in if int (length (heap s)) < k_mw s
         then Inr (s\<lparr>heap := heappush (heap s) (- hval, item)\<rparr>)
         else (case py_get (heap s) 0 of
                 Inl e \<Rightarrow> Inl e
               | Inr top_entry \<Rightarrow>
                  (if hval < - fst top_entry
                   then (case heapreplace (heap s) (- hval, item) of
                           Inl e \<Rightarrow> Inl e
                         | Inr (returnitem, h') \<Rightarrow> Inr (s\<lparr>heap := h'\<rparr>))
                   else Inr s)))"

definition sample :: "MinWiseSampler \<Rightarrow> string list" where
  "sample s = map snd (heap s)"

fun consider_all :: "(string \<Rightarrow> nat) \<Rightarrow> MinWiseSampler \<Rightarrow> string list \<Rightarrow> py_error + MinWiseSampler" where
  "consider_all hash_item s [] = Inr s"
| "consider_all hash_item s (item # rest) =
     (case consider_item hash_item s item of
        Inl e \<Rightarrow> Inl e
      | Inr s' \<Rightarrow> consider_all hash_item s' rest)"

section \<open>Membership filter (bloom\_filter\_module.py)\<close>

text \<open>
  Modelled from the spec: the class \<open>BloomFilter\<close> of the \<open>pybloom_live\<close> package, whose
  \<open>add\<close> and \<open>__contains__\<close> the module calls, is not part of the sources. The spec
  gives it as a fixed-size bit array plus a fixed number of hash seeds: a key is hashed
  with every seed to a bit position, insert sets all these bits, and contains is true
  only if all of them are set. \<open>bf_hash key seed\<close> is the hash.
\<close>

record BloomFilter =
  bitarray :: "bool list"
  bf_seeds :: "int list"

definition BloomFilter_init :: "nat \<Rightarrow> int list \<Rightarrow> BloomFilter" where
  "BloomFilter_init num_bits sds = \<lparr> bitarray = replicate num_bits False, bf_seeds = sds \<rparr>"

definition bit_positions :: "(string \<Rightarrow> int \<Rightarrow> nat) \<Rightarrow> BloomFilter \<Rightarrow> string \<Rightarrow> nat list" where
  "bit_positions bf_hash bf key = map (\<lambda>s. bf_hash key s mod length (bitarray bf)) (bf_seeds bf)"

definition bf_add :: "(string \<Rightarrow> int \<Rightarrow> nat) \<Rightarrow> BloomFilter \<Rightarrow> string \<Rightarrow> BloomFilter" where
  "bf_add bf_hash bf key =
     bf\<lparr>bitarray := fold (\<lambda>p bits. bits[p := True]) (bit_positions bf_hash bf key) (bitarray bf)\<rparr>"

definition bf_contains :: "(string \<Rightarrow> int \<Rightarrow> nat) \<Rightarrow> BloomFilter \<Rightarrow> string \<Rightarrow> bool" where
  "bf_contains bf_hash bf key = list_all (\<lambda>p. bitarray bf ! p) (bit_positions bf_hash bf key)"

text \<open>The module's two functions, on the module-level filter \<open>bf\<close>.\<close>

definition mark_play_analyzed :: "(string \<Rightarrow> int \<Rightarrow> nat) \<Rightarrow> BloomFilter \<Rightarrow> string \<Rightarrow> BloomFilter" where
  "mark_play_analyzed bf_hash bf play_key = bf_add bf_hash bf play_key"

definition check_play_analyzed :: "(string \<Rightarrow> int \<Rightarrow> nat) \<Rightarrow> BloomFilter \<Rightarrow> string \<Rightarrow> bool" where
  "check_play_analyzed bf_hash bf play_key = bf_contains bf_hash bf play_key"

section \<open>Predicates used in the proofs\<close>

text \<open>
  The column a key falls into for a seed, the shape of a well-formed table, and the
  statement that a function bounds every cell of a key from below.
\<close>

definition cell_index :: "(string \<Rightarrow> int \<Rightarrow> int) \<Rightarrow> int \<Rightarrow> string \<Rightarrow> int \<Rightarrow> nat" where
  "cell_index mmh3 w key s = nat (mmh3 key s mod w)"

definition rows_ok :: "int \<Rightarrow> int list list \<Rightarrow> bool" where
  "rows_ok w tabs = (0 < w \<and> (\<forall>row \<in> set tabs. int (length row) = w))"

definition cms_ok :: "CountMinSketch \<Rightarrow> bool" where
  "cms_ok c = (rows_ok (width c) (tables c) \<and> length (seeds c) = length (tables c))"

definition lower_bound :: "(string \<Rightarrow> int \<Rightarrow> int) \<Rightarrow> CountMinSketch \<Rightarrow> (string \<Rightarrow> int) \<Rightarrow> bool" where
  "lower_bound mmh3 c f =
     (\<forall>j < length (seeds c). \<forall>key.
        f key \<le> tables c ! j ! cell_index mmh3 (width c) key (seeds c ! j))"

text \<open>
  A sample hash function and a sample stream of random draws, for evaluating the
  operations on concrete inputs.
\<close>

definition example_mmh3 :: "string \<Rightarrow> int \<Rightarrow> int" where
  "example_mmh3 key s = int (length key) + s"

definition example_randint :: "nat \<Rightarrow> int" where
  "example_randint i = int i + 1"

definition example_sign_hash :: "int \<Rightarrow> int \<Rightarrow> nat" where
  "example_sign_hash x seed = nat (abs (x + seed))"

definition example_hash_item :: "string \<Rightarrow> nat" where
  "example_hash_item s = length s"

text \<open>
  The transition model \<open>OnlineMarkovModel(["peak", "good"])\<close> with the default smoothing,
  and one observed transition from the first state to the second.
\<close>

definition example_model :: "string OnlineMarkovModel" where
  "example_model =
     \<lparr> states = [''peak'', ''good''], idx = mk_idx [''peak'', ''good''], n_states = 2,
       counts = [[0, 0], [0, 0]], smoothing = 1 / 1000, cached_P = None \<rparr>"

definition example_calls :: "string markov_call list" where
  "example_calls = [Observe ''peak'' ''good'' 1]"

definition example_bf_hash :: "string \<Rightarrow> int \<Rightarrow> nat" where
  "example_bf_hash key seed = length key * nat (abs seed) + 1"



text \<open>
  Well-formedness of a transition model: the count matrix is square of dimension
  \<open>n\<close>, the index dictionary points into it, and a cached matrix is the matrix of the
  current counts.
\<close>

definition model_ok :: "'s OnlineMarkovModel \<Rightarrow> bool" where
  "model_ok m =
     (length (counts m) = n_states m \<and>
      (\<forall>row \<in> set (counts m). length row = n_states m) \<and>
      (\<forall>s i. idx m s = Some i \<longrightarrow> i < n_states m) \<and>
      (case cached_P m of None \<Rightarrow> True | Some P \<Rightarrow> P = compute_P (counts m) (smoothing m)))"

text \<open>The filter after a sequence of \<open>mark_play_analyzed\<close> calls.\<close>

definition mark_all :: "(string \<Rightarrow> int \<Rightarrow> nat) \<Rightarrow> BloomFilter \<Rightarrow> string list \<Rightarrow> BloomFilter" where
  "mark_all bf_hash bf keys = fold (\<lambda>k b. mark_play_analyzed bf_hash b k) keys bf"

text \<open>
  The heap invariant of \<open>heapq\<close>: every entry is at least its parent, the parent of
  index \<open>i\<close> being \<open>(i - 1) div 2\<close>. \<open>heap_hole h pos\<close> is the invariant of the two
  sift loops: the entry at \<open>pos\<close> is about to be overwritten, the rest is a heap, and
  the children of \<open>pos\<close> are at least the parent of \<open>pos\<close>.
\<close>

definition parent_pos :: "nat \<Rightarrow> nat" where
  "parent_pos i = (i - 1) div 2"

definition is_heap :: "'a::linorder list \<Rightarrow> bool" where
  "is_heap h = (\<forall>i. 0 < i \<and> i < length h \<longrightarrow> h ! parent_pos i \<le> h ! i)"

definition heap_hole :: "'a::linorder list \<Rightarrow> nat \<Rightarrow> bool" where
  "heap_hole h pos =
     (pos < length h \<and>
      (\<forall>i. 0 < i \<and> i < length h \<and> i \<noteq> pos \<and> parent_pos i \<noteq> pos \<longrightarrow> h ! parent_pos i \<le> h ! i) \<and>
      (0 < pos \<longrightarrow> (\<forall>i. 0 < i \<and> i < length h \<and> parent_pos i = pos \<longrightarrow> h ! parent_pos pos \<le> h ! i)))"

definition above_children :: "'a::linorder list \<Rightarrow> nat \<Rightarrow> 'a \<Rightarrow> bool" where
  "above_children h pos x = (\<forall>i. 0 < i \<and> i < length h \<and> parent_pos i = pos \<longrightarrow> x \<le> h ! i)"

text \<open>The child that \<open>_siftup\<close> moves up: the right one unless the left one is smaller.\<close>

definition smaller_child :: "'a::linorder list \<Rightarrow> nat \<Rightarrow> nat \<Rightarrow> nat" where
  "smaller_child h endpos pos =
     (if 2 * pos + 2 < endpos \<and> \<not> h ! (2 * pos + 1) < h ! (2 * pos + 2)
      then 2 * pos + 2 else 2 * pos + 1)"

text \<open>
  The tuple the sampler stores for an item, and the invariant of its heap after the
  items \<open>ys\<close> have been considered: a heap of distinct entries of considered items,
  of size \<open>min k (length ys)\<close>, such that every entry left out has a hash that is at
  least every hash kept.
\<close>

definition entry :: "(string \<Rightarrow> nat) \<Rightarrow> string \<Rightarrow> int \<times> string" where
  "entry hash_item item = (- int (hash_item item), item)"

definition sampler_inv :: "(string \<Rightarrow> nat) \<Rightarrow> int \<Rightarrow> string list \<Rightarrow> (int \<times> string) list \<Rightarrow> bool" where
  "sampler_inv hash_item k ys H =
     (is_heap H \<and> distinct H \<and> set H \<subseteq> entry hash_item ` set ys \<and>
      int (length H) = min k (int (length ys)) \<and>
      (\<forall>x \<in> set ys. entry hash_item x \<notin> set H \<longrightarrow> (\<forall>e \<in> set H. - fst e \<le> int (hash_item x))))"

section \<open>Count-Min Sketch: the estimate is an upper bound\<close>

lemma cell_index_less: "0 < w \<Longrightarrow> int (cell_index mmh3 w key s) < w"
  by (simp add: cell_index_def)

lemma py_get_in_range: "i < length xs \<Longrightarrow> py_get xs (int i) = Inr (xs ! i)"
  by (simp add: py_get_def py_index_def)

lemma py_set_in_range: "i < length xs \<Longrightarrow> py_set xs (int i) v = Inr (xs[i := v])"
  by (simp add: py_set_def py_index_def)

lemma hash_at_pos: "0 < w \<Longrightarrow> hash_at mmh3 w key s = Inr (int (cell_index mmh3 w key s))"
  by (simp add: hash_at_def cell_index_def)

lemma rows_ok_update:
  "rows_ok w tabs \<Longrightarrow> i < length tabs \<Longrightarrow> rows_ok w (tabs[i := (tabs ! i)[j := v]])"
  unfolding rows_ok_def by (auto simp: set_conv_nth nth_list_update)

lemma add_loop_result:
  "rows_ok w tabs \<Longrightarrow> i + length ss \<le> length tabs \<Longrightarrow>
   \<exists>tabs'. add_loop mmh3 w key cnt i ss tabs = Inr tabs' \<and> rows_ok w tabs' \<and>
     length tabs' = length tabs \<and>
     (\<forall>j < length tabs. tabs' ! j =
        (if i \<le> j \<and> j < i + length ss
         then (tabs ! j)[cell_index mmh3 w key (ss ! (j - i))
                := tabs ! j ! cell_index mmh3 w key (ss ! (j - i)) + cnt]
         else tabs ! j))"
proof (induction ss arbitrary: i tabs)
  case Nil
  then show ?case by auto
next
  case (Cons s ss)
  let ?c = "cell_index mmh3 w key s"
  let ?row = "(tabs ! i)[?c := tabs ! i ! ?c + cnt]"
  let ?tabs = "tabs[i := ?row]"
  from Cons.prems have i: "i < length tabs" and w: "0 < w" by (auto simp: rows_ok_def)
  from Cons.prems i have len: "int (length (tabs ! i)) = w" by (auto simp: rows_ok_def)
  with w have c: "?c < length (tabs ! i)" using cell_index_less[of w mmh3 key s] by simp
  have ok: "rows_ok w ?tabs" using Cons.prems(1) i by (rule rows_ok_update)
  have le: "Suc i + length ss \<le> length ?tabs" using Cons.prems(2) by simp
  from Cons.IH[OF ok le] obtain tabs' where
    r: "add_loop mmh3 w key cnt (Suc i) ss ?tabs = Inr tabs'" and ok': "rows_ok w tabs'"
    and l: "length tabs' = length ?tabs"
    and e: "\<forall>j < length ?tabs. tabs' ! j =
        (if Suc i \<le> j \<and> j < Suc i + length ss
         then (?tabs ! j)[cell_index mmh3 w key (ss ! (j - Suc i))
                := ?tabs ! j ! cell_index mmh3 w key (ss ! (j - Suc i)) + cnt]
         else ?tabs ! j)"
    by blast
  have step: "add_loop mmh3 w key cnt i (s # ss) tabs = Inr tabs'"
    using r w i c by (simp add: hash_at_pos py_get_in_range py_set_in_range)
  have "\<forall>j < length tabs. tabs' ! j =
        (if i \<le> j \<and> j < i + length (s # ss)
         then (tabs ! j)[cell_index mmh3 w key ((s # ss) ! (j - i))
                := tabs ! j ! cell_index mmh3 w key ((s # ss) ! (j - i)) + cnt]
         else tabs ! j)"
  proof (intro allI impI)
    fix j assume j: "j < length tabs"
    show "tabs' ! j =
        (if i \<le> j \<and> j < i + length (s # ss)
         then (tabs ! j)[cell_index mmh3 w key ((s # ss) ! (j - i))
                := tabs ! j ! cell_index mmh3 w key ((s # ss) ! (j - i)) + cnt]
         else tabs ! j)"
    proof (cases "j = i")
      case True
      then show ?thesis using e j i by simp
    next
      case False
      then show ?thesis using e j i by (auto simp: nth_Cons')
    qed
  qed
  with step ok' l show ?case by simp
qed

lemma add_ok:
  assumes "cms_ok c"
  shows "\<exists>c'. add mmh3 c key cnt = Inr c' \<and> cms_ok c' \<and> width c' = width c \<and> seeds c' = seeds c \<and>
           (\<forall>j < length (seeds c). tables c' ! j =
              (tables c ! j)[cell_index mmh3 (width c) key (seeds c ! j)
                 := tables c ! j ! cell_index mmh3 (width c) key (seeds c ! j) + cnt])"
proof -
  from assms have ok: "rows_ok (width c) (tables c)" and len: "length (seeds c) = length (tables c)"
    by (simp_all add: cms_ok_def)
  have le: "0 + length (seeds c) \<le> length (tables c)" using len by simp
  from add_loop_result[OF ok le, of mmh3 key cnt] obtain tabs' where
    r: "add_loop mmh3 (width c) key cnt 0 (seeds c) (tables c) = Inr tabs'"
    and ok': "rows_ok (width c) tabs'" and l: "length tabs' = length (tables c)"
    and e: "\<forall>j < length (tables c). tabs' ! j =
        (if 0 \<le> j \<and> j < 0 + length (seeds c)
         then (tables c ! j)[cell_index mmh3 (width c) key (seeds c ! (j - 0))
                := tables c ! j ! cell_index mmh3 (width c) key (seeds c ! (j - 0)) + cnt]
         else tables c ! j)"
    by blast
  show ?thesis
    using r ok' l e len by (simp add: add_def cms_ok_def)
qed

lemma add_lower_bound:
  assumes ok: "cms_ok c" and lb: "lower_bound mmh3 c f" and nonneg: "0 \<le> cnt"
  shows "\<exists>c'. add mmh3 c key cnt = Inr c' \<and> cms_ok c' \<and> width c' = width c \<and> seeds c' = seeds c \<and>
           lower_bound mmh3 c' (\<lambda>k. f k + (if k = key then cnt else 0))"
proof -
  from add_ok[OF ok, of mmh3 key cnt] obtain c' where
    r: "add mmh3 c key cnt = Inr c'" and ok': "cms_ok c'" and w: "width c' = width c"
    and s: "seeds c' = seeds c"
    and e: "\<forall>j < length (seeds c). tables c' ! j =
              (tables c ! j)[cell_index mmh3 (width c) key (seeds c ! j)
                 := tables c ! j ! cell_index mmh3 (width c) key (seeds c ! j) + cnt]"
    by blast
  have "lower_bound mmh3 c' (\<lambda>k. f k + (if k = key then cnt else 0))"
    unfolding lower_bound_def
  proof (intro allI impI)
    fix j k assume "j < length (seeds c')"
    then have j: "j < length (seeds c)" using s by simp
    then have jt: "j < length (tables c)" using ok by (simp add: cms_ok_def)
    have wpos: "0 < width c" using ok by (simp add: cms_ok_def rows_ok_def)
    have rowlen: "int (length (tables c ! j)) = width c"
      using ok jt by (auto simp: cms_ok_def rows_ok_def)
    let ?ck = "cell_index mmh3 (width c) k (seeds c ! j)"
    let ?ckey = "cell_index mmh3 (width c) key (seeds c ! j)"
    have ck: "?ck < length (tables c ! j)"
      using cell_index_less[OF wpos, of mmh3 k "seeds c ! j"] rowlen by simp
    have old: "f k \<le> tables c ! j ! ?ck" using lb j by (simp add: lower_bound_def)
    have oldkey: "f key \<le> tables c ! j ! ?ckey" using lb j by (simp add: lower_bound_def)
    have new: "tables c' ! j ! ?ck = (if ?ck = ?ckey then tables c ! j ! ?ckey + cnt else tables c ! j ! ?ck)"
      using e j ck by (simp add: nth_list_update)
    show "f k + (if k = key then cnt else 0) \<le> tables c' ! j ! cell_index mmh3 (width c') k (seeds c' ! j)"
      using new old oldkey nonneg w s by (auto split: if_splits)
  qed
  with r ok' w s show ?thesis by blast
qed

lemma true_count_Cons:
  "true_count ((k, n) # calls) key = (if k = key then n else 0) + true_count calls key"
  by (simp add: true_count_def)

lemma add_all_lower_bound:
  "cms_ok c \<Longrightarrow> lower_bound mmh3 c f \<Longrightarrow> \<forall>kc \<in> set calls. 0 \<le> snd kc \<Longrightarrow>
   \<exists>c'. add_all mmh3 c calls = Inr c' \<and> cms_ok c' \<and> seeds c' = seeds c \<and>
        lower_bound mmh3 c' (\<lambda>k. f k + true_count calls k)"
proof (induction calls arbitrary: c f)
  case Nil
  then show ?case by (simp add: true_count_def)
next
  case (Cons kc calls)
  obtain key cnt where kc: "kc = (key, cnt)" by (cases kc)
  with Cons.prems have nn: "0 \<le> cnt" by simp
  from add_lower_bound[OF Cons.prems(1,2) nn, of key] obtain c1 where
    r: "add mmh3 c key cnt = Inr c1" and ok1: "cms_ok c1" and s1: "seeds c1 = seeds c"
    and lb1: "lower_bound mmh3 c1 (\<lambda>k. f k + (if k = key then cnt else 0))"
    by blast
  from Cons.prems have rest: "\<forall>kc \<in> set calls. 0 \<le> snd kc" by simp
  from Cons.IH[OF ok1 lb1 rest] obtain c' where
    r': "add_all mmh3 c1 calls = Inr c'" and ok': "cms_ok c'" and s': "seeds c' = seeds c1"
    and lb': "lower_bound mmh3 c' (\<lambda>k. f k + (if k = key then cnt else 0) + true_count calls k)"
    by blast
  have eq: "(\<lambda>k. f k + (if k = key then cnt else 0) + true_count calls k)
          = (\<lambda>k. f k + true_count (kc # calls) k)"
    by (rule ext) (simp add: kc true_count_Cons)
  show ?case
    using r r' ok' s' s1 lb' unfolding eq by (simp add: kc)
qed

lemma estimate_cells_result:
  "rows_ok w tabs \<Longrightarrow> i + length ss \<le> length tabs \<Longrightarrow>
   estimate_cells mmh3 w key i ss tabs
     = Inr (map (\<lambda>j. tabs ! (i + j) ! cell_index mmh3 w key (ss ! j)) [0..<length ss])"
proof (induction ss arbitrary: i)
  case Nil
  then show ?case by simp
next
  case (Cons s ss)
  from Cons.prems have i: "i < length tabs" and w: "0 < w" by (auto simp: rows_ok_def)
  from Cons.prems i have len: "int (length (tabs ! i)) = w" by (auto simp: rows_ok_def)
  with w have c: "cell_index mmh3 w key s < length (tabs ! i)"
    using cell_index_less[of w mmh3 key s] by simp
  have le: "Suc i + length ss \<le> length tabs" using Cons.prems(2) by simp
  have shift: "map (\<lambda>j. tabs ! (i + j) ! cell_index mmh3 w key ((s # ss) ! j)) [0..<length (s # ss)]
     = tabs ! i ! cell_index mmh3 w key s
       # map (\<lambda>j. tabs ! (Suc i + j) ! cell_index mmh3 w key (ss ! j)) [0..<length ss]"
    by (simp add: upt_conv_Cons map_Suc_upt[symmetric] del: upt_Suc)
  show ?case
    unfolding shift using Cons.IH[OF Cons.prems(1) le] w i c
    by (simp add: hash_at_pos py_get_in_range)
qed

lemma fold_min_lower: "lb \<le> v \<Longrightarrow> \<forall>x \<in> set vs. lb \<le> x \<Longrightarrow> lb \<le> fold min vs (v::int)"
  by (induction vs arbitrary: v) auto

lemma estimate_lower_bound:
  assumes ok: "cms_ok c" and lb: "lower_bound mmh3 c f" and ne: "seeds c \<noteq> []"
  shows "\<exists>v. estimate mmh3 c key = Inr v \<and> f key \<le> v"
proof -
  from ok have rok: "rows_ok (width c) (tables c)" and len: "length (seeds c) = length (tables c)"
    by (simp_all add: cms_ok_def)
  have le: "0 + length (seeds c) \<le> length (tables c)" using len by simp
  let ?vs = "map (\<lambda>j. tables c ! (0 + j) ! cell_index mmh3 (width c) key (seeds c ! j)) [0..<length (seeds c)]"
  have cells: "estimate_cells mmh3 (width c) key 0 (seeds c) (tables c) = Inr ?vs"
    by (rule estimate_cells_result[OF rok le])
  have all: "\<forall>x \<in> set ?vs. f key \<le> x" using lb by (auto simp: lower_bound_def)
  from ne obtain v rest where vs: "?vs = v # rest" by (cases "seeds c") (simp_all add: upt_conv_Cons del: upt_Suc)
  from all have "f key \<le> v" "\<forall>x \<in> set rest. f key \<le> x" unfolding vs by simp_all
  then have "f key \<le> fold min rest v" by (rule fold_min_lower)
  then show ?thesis unfolding estimate_def cells vs by (simp add: py_min_def)
qed

lemma init_ok:
  assumes "0 < w" "0 < d"
  shows "\<exists>c. CountMinSketch_init w d randint = Inr c \<and> cms_ok c \<and> seeds c \<noteq> [] \<and>
             lower_bound mmh3 c (\<lambda>k. 0)"
proof -
  let ?c = "\<lparr> width = w, depth = d, tables = map (\<lambda>_. py_repeat 0 w) (py_range d),
              seeds = map randint (py_range d) \<rparr>"
  have ok: "cms_ok ?c" using assms by (auto simp: cms_ok_def rows_ok_def py_repeat_def py_range_def)
  have ne: "seeds ?c \<noteq> []" using assms by (simp add: py_range_def)
  have "lower_bound mmh3 ?c (\<lambda>k. 0)"
    unfolding lower_bound_def
  proof (intro allI impI)
    fix j key assume "j < length (seeds ?c)"
    then have j: "j < nat d" by (simp add: py_range_def)
    have "cell_index mmh3 w key (seeds ?c ! j) < nat w"
      using cell_index_less[OF assms(1), of mmh3 key "seeds ?c ! j"] by simp
    then show "0 \<le> tables ?c ! j ! cell_index mmh3 (width ?c) key (seeds ?c ! j)"
      using j by (simp add: py_repeat_def py_range_def)
  qed
  with ok ne show ?thesis by (simp add: CountMinSketch_init_def)
qed

text \<open>
  Claim C1. On a sketch built with positive width and depth, after any finite sequence
  of \<open>add(key, count)\<close> calls with non-negative counts every call has returned, and
  \<open>estimate(key)\<close> returns a value that is at least the true total added for \<open>key\<close>,
  for every key, whatever the hash function and the seeds are.
\<close>

theorem estimate_never_underestimates:
  assumes "0 < w" and "0 < d" and "\<forall>kc \<in> set calls. 0 \<le> snd kc"
  shows "\<exists>c0 c v. CountMinSketch_init w d randint = Inr c0
           \<and> add_all mmh3 c0 calls = Inr c
           \<and> estimate mmh3 c key = Inr v
           \<and> true_count calls key \<le> v"
proof -
  from init_ok[OF assms(1,2), of randint mmh3] obtain c0 where
    i: "CountMinSketch_init w d randint = Inr c0" and ok: "cms_ok c0" and ne: "seeds c0 \<noteq> []"
    and lb: "lower_bound mmh3 c0 (\<lambda>k. 0)" by blast
  from add_all_lower_bound[OF ok lb assms(3)] obtain c where
    a: "add_all mmh3 c0 calls = Inr c" and ok': "cms_ok c" and s: "seeds c = seeds c0"
    and lb': "lower_bound mmh3 c (\<lambda>k. 0 + true_count calls k)" by blast
  from ne s have ne': "seeds c \<noteq> []" by simp
  from estimate_lower_bound[OF ok' lb' ne', of key] obtain v where
    "estimate mmh3 c key = Inr v" "0 + true_count calls key \<le> v" by blast
  with i a show ?thesis by simp
qed

theorem estimate_never_underestimates_witness:
  "\<exists>c0 c v. CountMinSketch_init 3 2 (\<lambda>i. int i) = Inr c0
       \<and> add_all (\<lambda>key s. int (length key) + s) c0 [(''a'', 2), (''bc'', 5), (''a'', 1)] = Inr c
       \<and> estimate (\<lambda>key s. int (length key) + s) c ''a'' = Inr v
       \<and> true_count [(''a'', 2), (''bc'', 5), (''a'', 1)] ''a'' \<le> v"
  using estimate_never_underestimates[of 3 2 "[(''a'', 2), (''bc'', 5), (''a'', 1)]"
          "\<lambda>i. int i" "\<lambda>key s. int (length key) + s" "''a''"]
  by simp

section \<open>Windowed bit counter: buckets after seven set bits\<close>

text \<open>
  Claim C2. The claim says that after every \<open>add_bit\<close> at most two buckets of any one
  size exist. The loop merges buckets \<open>i\<close> and \<open>i+1\<close>, the two newest of the three, and
  leaves the doubled bucket in front of the third: seven set bits at timestamps 1 to 7,
  in a window of 100, leave three buckets of size 1 (and two of size 2 between them).
\<close>

theorem three_buckets_of_size_one:
  "buckets (add_bits (DGIM_init 100)
      [(True, 1), (True, 2), (True, 3), (True, 4), (True, 5), (True, 6), (True, 7)])
   = [\<lparr>time_b = 7, size_b = 1\<rparr>, \<lparr>time_b = 5, size_b = 2\<rparr>, \<lparr>time_b = 4, size_b = 1\<rparr>,
      \<lparr>time_b = 2, size_b = 2\<rparr>, \<lparr>time_b = 1, size_b = 1\<rparr>]
   \<and> buckets_of_size (add_bits (DGIM_init 100)
      [(True, 1), (True, 2), (True, 3), (True, 4), (True, 5), (True, 6), (True, 7)]) 1 = 3"
  by code_simp

section \<open>Windowed bit counter: queries past the window\<close>

text \<open>
  Claim C3. The claim says that \<open>query\<close> adds half of the bucket that straddles the
  window boundary to the buckets counted in full, and returns 0 once the query
  timestamp is past the last event's timestamp plus the window. After set bits at
  timestamps 1, 2, 3 (window 10) the buckets are one of size 2 and one of size 1, and
  \<open>query(100)\<close> returns 1: half of the newest bucket is added although no bucket is in
  the window. After a fourth set bit at timestamp 4, \<open>query(13)\<close> returns 1: the bucket
  of size 2 that holds the events of timestamps 2 and 3 straddles the cutoff 3, and
  nothing is added for it.
\<close>

theorem query_after_window_passed:
  "buckets (add_bits (DGIM_init 10) [(True, 1), (True, 2), (True, 3)])
     = [\<lparr>time_b = 2, size_b = 2\<rparr>, \<lparr>time_b = 1, size_b = 1\<rparr>]
   \<and> query (add_bits (DGIM_init 10) [(True, 1), (True, 2), (True, 3)]) 100 = 1
   \<and> buckets (add_bits (DGIM_init 10) [(True, 1), (True, 2), (True, 3), (True, 4)])
     = [\<lparr>time_b = 4, size_b = 1\<rparr>, \<lparr>time_b = 2, size_b = 2\<rparr>, \<lparr>time_b = 1, size_b = 1\<rparr>]
   \<and> query (add_bits (DGIM_init 10) [(True, 1), (True, 2), (True, 3), (True, 4)]) 13 = 1"
  by code_simp

section \<open>Running moments of a constant sample\<close>

text \<open>
  Claim C4. After \<open>update\<close> on 5, 5, 5, 5 the accumulators are \<open>n = 4\<close>, \<open>mean = 5\<close> and
  \<open>M2 = M3 = M4 = 0\<close>. \<open>get_variance\<close> returns 0; \<open>get_skewness\<close> and \<open>get_kurtosis\<close>
  divide by \<open>M2 ** 1.5\<close> and by \<open>M2 * M2\<close>, which are zero, and raise ZeroDivisionError.
\<close>

theorem constant_sample_moments:
  "update_all RunningMoments_init [5, 5, 5, 5]
     = Inr \<lparr> n_rm = 4, mean_rm = 5, M2 = 0, M3 = 0, M4 = 0 \<rparr>
   \<and> get_variance \<lparr> n_rm = 4, mean_rm = 5, M2 = 0, M3 = 0, M4 = 0 \<rparr> = Inr 0
   \<and> get_skewness \<lparr> n_rm = 4, mean_rm = 5, M2 = 0, M3 = 0, M4 = 0 \<rparr> = Inl ZeroDivisionError
   \<and> get_kurtosis \<lparr> n_rm = 4, mean_rm = 5, M2 = 0, M3 = 0, M4 = 0 \<rparr> = Inl ZeroDivisionError"
  by (simp add: RunningMoments_init_def update_def py_fdiv_def get_variance_def get_skewness_def
        get_kurtosis_def)

section \<open>Construction with an invalid configuration\<close>

lemma py_get_Nil: "py_get [] i = Inl IndexError"
  by (simp add: py_get_def py_index_def)

lemma cms_zero_width:
  assumes "0 < d"
  shows "add mmh3 \<lparr> width = 0, depth = d, tables = map (\<lambda>_. py_repeat 0 0) (py_range d),
              seeds = map randint (py_range d) \<rparr> key cnt = Inl ZeroDivisionError"
proof -
  from assms obtain n where n: "nat d = Suc n" by (cases "nat d") auto
  show ?thesis
    by (simp add: add_def py_range_def n upt_conv_Cons hash_at_def del: upt_Suc)
qed

lemma cms_negative_width:
  assumes "w < 0" "0 < d"
  shows "add mmh3 \<lparr> width = w, depth = d, tables = map (\<lambda>_. py_repeat 0 w) (py_range d),
              seeds = map randint (py_range d) \<rparr> key cnt = Inl IndexError"
proof -
  from assms obtain n where n: "nat d = Suc n" by (cases "nat d") auto
  have r: "py_repeat (0::int) w = []" using assms by (simp add: py_repeat_def)
  have g: "py_get (py_repeat (0::int) w # map (\<lambda>_. py_repeat 0 w) [Suc 0..<Suc n]) 0
             = Inr (py_repeat 0 w)"
    by (simp add: py_get_def py_index_def)
  show ?thesis
    using assms(1) g
    by (simp add: add_def py_range_def n upt_conv_Cons hash_at_def r py_get_Nil del: upt_Suc)
qed

lemma cms_no_rows:
  assumes "d \<le> 0"
  shows "add mmh3 \<lparr> width = w, depth = d, tables = map (\<lambda>_. py_repeat 0 w) (py_range d),
              seeds = map randint (py_range d) \<rparr> key cnt
         = Inr \<lparr> width = w, depth = d, tables = map (\<lambda>_. py_repeat 0 w) (py_range d),
              seeds = map randint (py_range d) \<rparr>"
    and "estimate mmh3 \<lparr> width = w, depth = d, tables = map (\<lambda>_. py_repeat 0 w) (py_range d),
              seeds = map randint (py_range d) \<rparr> key = Inl ValueError"
  using assms by (simp_all add: add_def estimate_def py_range_def py_min_def)

lemma ams_no_accumulators:
  assumes "k \<le> 0"
  shows "update_ams sign_hash \<lparr> k_ams = k, sign_hashes = map randint (py_range k),
              Z_ams = py_repeat 0 k \<rparr> item v
         = Inr \<lparr> k_ams = k, sign_hashes = map randint (py_range k), Z_ams = py_repeat 0 k \<rparr>"
    and "estimate_F2 \<lparr> k_ams = k, sign_hashes = map randint (py_range k),
              Z_ams = py_repeat 0 k \<rparr> = Inl ZeroDivisionError"
  using assms by (simp_all add: update_ams_def estimate_F2_def py_range_def py_repeat_def py_fdiv_def)

lemma markov_no_states:
  "observe_transition \<lparr> states = [], idx = mk_idx [], n_states = 0, counts = [],
       smoothing = sm, cached_P = None \<rparr> f t wt
     = \<lparr> states = [], idx = mk_idx [], n_states = 0, counts = [], smoothing = sm, cached_P = None \<rparr>"
  "fst (predict_distribution \<lparr> states = [], idx = mk_idx [], n_states = 0, counts = [],
       smoothing = sm, cached_P = None \<rparr> f steps) = None"
  by (simp_all add: mk_idx_def observe_transition_def predict_distribution_def)

lemma sampler_no_room:
  assumes "k \<le> 0"
  shows "consider_item hash_item (MinWiseSampler_init k) item = Inl IndexError"
  using assms by (simp add: consider_item_def MinWiseSampler_init_def py_get_Nil)

text \<open>
  Claim C5, as stated, fails: no constructor checks its arguments. A sketch of width 0
  and depth 1 is constructed, and the failure comes at update time, when \<open>add\<close> takes
  the hash modulo the width.
\<close>

theorem construction_accepts_invalid_configuration:
  "CountMinSketch_init 0 1 example_randint
     = Inr \<lparr> width = 0, depth = 1, tables = [[]], seeds = [1] \<rparr>
   \<and> add example_mmh3 \<lparr> width = 0, depth = 1, tables = [[]], seeds = [1] \<rparr> ''player'' 1
     = Inl ZeroDivisionError"
  by (simp add: CountMinSketch_init_def py_range_def py_repeat_def example_randint_def add_def
        hash_at_def)

text \<open>
  Claim C5, amended. Construction returns an object for every width, depth and \<open>k\<close>
  and for the empty state list. An invalid configuration shows in a later call:
  with width 0 and a positive depth \<open>add\<close> raises ZeroDivisionError, with a negative
  width and a positive depth \<open>add\<close> raises IndexError, with a non-positive depth \<open>add\<close>
  does nothing and \<open>estimate\<close> raises ValueError; with a non-positive \<open>k\<close> the moment
  estimator's \<open>update\<close> does nothing and \<open>estimate_F2\<close> raises ZeroDivisionError, and
  the sampler's \<open>consider\<close> raises IndexError; the transition model over no states has
  \<open>n = 0\<close>, ignores every observation and predicts \<open>None\<close>.
\<close>

theorem invalid_configuration_fails_after_construction:
  "(\<exists>c. CountMinSketch_init w d randint = Inr c \<and>
        (w = 0 \<and> 0 < d \<longrightarrow> add hashfn c key cnt = Inl ZeroDivisionError) \<and>
        (w < 0 \<and> 0 < d \<longrightarrow> add hashfn c key cnt = Inl IndexError) \<and>
        (d \<le> 0 \<longrightarrow> add hashfn c key cnt = Inr c \<and> estimate hashfn c key = Inl ValueError))
   \<and> (\<exists>a. AMSF2_init k randint' = Inr a \<and>
        (k \<le> 0 \<longrightarrow> update_ams sign_hash a item v = Inr a \<and> estimate_F2 a = Inl ZeroDivisionError))
   \<and> (\<exists>m. OnlineMarkovModel_init [] sm = Inr m \<and> n_states m = 0 \<and>
        observe_transition m f t wt = m \<and> fst (predict_distribution m f steps) = None)
   \<and> (k' \<le> 0 \<longrightarrow> consider_item hash_item (MinWiseSampler_init k') item' = Inl IndexError)"
proof (intro conjI)
  show "\<exists>c. CountMinSketch_init w d randint = Inr c \<and>
        (w = 0 \<and> 0 < d \<longrightarrow> add hashfn c key cnt = Inl ZeroDivisionError) \<and>
        (w < 0 \<and> 0 < d \<longrightarrow> add hashfn c key cnt = Inl IndexError) \<and>
        (d \<le> 0 \<longrightarrow> add hashfn c key cnt = Inr c \<and> estimate hashfn c key = Inl ValueError)"
    unfolding CountMinSketch_init_def
    by (simp add: cms_zero_width cms_negative_width cms_no_rows)
  show "\<exists>a. AMSF2_init k randint' = Inr a \<and>
        (k \<le> 0 \<longrightarrow> update_ams sign_hash a item v = Inr a \<and> estimate_F2 a = Inl ZeroDivisionError)"
    unfolding AMSF2_init_def by (simp add: ams_no_accumulators)
  show "\<exists>m. OnlineMarkovModel_init [] sm = Inr m \<and> n_states m = 0 \<and>
        observe_transition m f t wt = m \<and> fst (predict_distribution m f steps) = None"
    by (simp add: OnlineMarkovModel_init_def markov_no_states)
  show "k' \<le> 0 \<longrightarrow> consider_item hash_item (MinWiseSampler_init k') item' = Inl IndexError"
    using sampler_no_room by blast
qed


theorem invalid_configuration_fails_after_construction_witness:
  "(\<exists>c. CountMinSketch_init 0 1 example_randint = Inr c \<and>
        add example_mmh3 c ''player'' 1 = Inl ZeroDivisionError)
   \<and> (\<exists>c. CountMinSketch_init (- 1) 1 example_randint = Inr c \<and>
        add example_mmh3 c ''player'' 1 = Inl IndexError)
   \<and> (\<exists>c. CountMinSketch_init 5 0 example_randint = Inr c \<and>
        add example_mmh3 c ''player'' 1 = Inr c \<and> estimate example_mmh3 c ''player'' = Inl ValueError)
   \<and> (\<exists>a. AMSF2_init 0 example_randint = Inr a \<and>
        update_ams example_sign_hash a 3 1 = Inr a \<and> estimate_F2 a = Inl ZeroDivisionError)
   \<and> consider_item example_hash_item (MinWiseSampler_init 0) ''player'' = Inl IndexError"
proof -
  note zero_width = invalid_configuration_fails_after_construction
          [where w = 0 and d = 1 and randint = example_randint and hashfn = example_mmh3
             and key = "''player''" and cnt = 1 and k = 0 and randint' = example_randint
             and sign_hash = example_sign_hash and item = 3 and v = 1 and k' = 0
             and hash_item = example_hash_item and item' = "''player''"
             and sm = 1 and f = "''peak''" and t = "''good''" and wt = 1 and steps = 1]
  note negative_width = invalid_configuration_fails_after_construction
          [where w = "- 1" and d = 1 and randint = example_randint and hashfn = example_mmh3
             and key = "''player''" and cnt = 1 and k = 0 and randint' = example_randint
             and sign_hash = example_sign_hash and item = 3 and v = 1 and k' = 0
             and hash_item = example_hash_item and item' = "''player''"
             and sm = 1 and f = "''peak''" and t = "''good''" and wt = 1 and steps = 1]
  note no_rows = invalid_configuration_fails_after_construction
          [where w = 5 and d = 0 and randint = example_randint and hashfn = example_mmh3
             and key = "''player''" and cnt = 1 and k = 0 and randint' = example_randint
             and sign_hash = example_sign_hash and item = 3 and v = 1 and k' = 0
             and hash_item = example_hash_item and item' = "''player''"
             and sm = 1 and f = "''peak''" and t = "''good''" and wt = 1 and steps = 1]
  have a: "\<exists>c. CountMinSketch_init 0 1 example_randint = Inr c \<and>
        add example_mmh3 c ''player'' 1 = Inl ZeroDivisionError"
    using zero_width by simp
  have b: "\<exists>c. CountMinSketch_init (- 1) 1 example_randint = Inr c \<and>
        add example_mmh3 c ''player'' 1 = Inl IndexError"
    using negative_width by simp
  have c: "\<exists>c. CountMinSketch_init 5 0 example_randint = Inr c \<and>
        add example_mmh3 c ''player'' 1 = Inr c \<and> estimate example_mmh3 c ''player'' = Inl ValueError"
    using no_rows by simp
  have d: "\<exists>a. AMSF2_init 0 example_randint = Inr a \<and>
        update_ams example_sign_hash a 3 1 = Inr a \<and> estimate_F2 a = Inl ZeroDivisionError"
    using zero_width by simp
  have e: "consider_item example_hash_item (MinWiseSampler_init 0) ''player'' = Inl IndexError"
    using zero_width by simp
  from a b c d e show ?thesis by blast
qed

section \<open>Transition model: reachable models, unknown labels, aperiodicity\<close>

lemma mk_idx_fold_dom:
  "dom (fold (\<lambda>(i, s) m. m(s \<mapsto> i)) (enumerate k xs) m0) = dom m0 \<union> set xs"
  by (induction xs arbitrary: k m0) auto

lemma mk_idx_dom: "dom (mk_idx sts) = set sts"
  by (simp add: mk_idx_def mk_idx_fold_dom)

lemma mk_idx_fold_range:
  "fold (\<lambda>(i, s) m. m(s \<mapsto> i)) (enumerate k xs) m0 s = Some i \<Longrightarrow>
     m0 s = Some i \<or> (k \<le> i \<and> i < k + length xs)"
proof (induction xs arbitrary: k m0)
  case Nil
  then show ?case by simp
next
  case (Cons x xs)
  from Cons.prems have "fold (\<lambda>(i, s) m. m(s \<mapsto> i)) (enumerate (Suc k) xs) (m0(x \<mapsto> k)) s = Some i"
    by (simp del: fun_upd_apply)
  from Cons.IH[OF this] show ?case by (auto split: if_splits)
qed

lemma mk_idx_range: "mk_idx sts s = Some i \<Longrightarrow> i < length sts"
  unfolding mk_idx_def using mk_idx_fold_range[of 0 sts Map.empty s i] by simp

lemma init_model_ok:
  "OnlineMarkovModel_init sts sm = Inr m \<Longrightarrow>
     model_ok m \<and> idx m = mk_idx sts \<and> n_states m = length sts \<and> smoothing m = sm"
  by (auto simp: OnlineMarkovModel_init_def model_ok_def dest: mk_idx_range)

lemma model_okD:
  assumes "model_ok m"
  shows "length (counts m) = n_states m"
    and "\<And>row. row \<in> set (counts m) \<Longrightarrow> length row = n_states m"
    and "\<And>s i. idx m s = Some i \<Longrightarrow> i < n_states m"
    and "\<And>P. cached_P m = Some P \<Longrightarrow> P = compute_P (counts m) (smoothing m)"
  using assms unfolding model_ok_def by simp_all

lemma observe_known:
  "idx m f = Some i \<Longrightarrow> idx m t = Some j \<Longrightarrow>
     observe_transition m f t w
       = m\<lparr>counts := (counts m)[i := (counts m ! i)[j := counts m ! i ! j + w]], cached_P := None\<rparr>"
  by (simp add: observe_transition_def)

lemma observe_unknown:
  "idx m f = None \<or> idx m t = None \<Longrightarrow> observe_transition m f t w = m"
  by (auto simp: observe_transition_def split: option.splits)

lemma observe_model_ok:
  assumes "model_ok m"
  shows "model_ok (observe_transition m f t w)"
proof (cases "idx m f = None \<or> idx m t = None")
  case True
  then show ?thesis using assms by (simp add: observe_unknown)
next
  case False
  then obtain i j where ij: "idx m f = Some i" "idx m t = Some j" by auto
  let ?C = "(counts m)[i := (counts m ! i)[j := counts m ! i ! j + w]]"
  have i: "i < length (counts m)" using model_okD(1,3)[OF assms] ij(1) by simp
  have len: "length ?C = n_states m" using model_okD(1)[OF assms] by simp
  have rows: "length row = n_states m" if "row \<in> set ?C" for row
  proof -
    from that have "row \<in> insert ((counts m ! i)[j := counts m ! i ! j + w]) (set (counts m))"
      using set_update_subset_insert[of "counts m" i] by blast
    moreover have "length (counts m ! i) = n_states m"
      using model_okD(2)[OF assms, of "counts m ! i"] i by simp
    ultimately show ?thesis using model_okD(2)[OF assms, of row] by auto
  qed
  show ?thesis
    unfolding observe_known[OF ij] model_ok_def
    using len rows model_okD(3)[OF assms] by simp
qed

lemma observe_fields:
  "idx (observe_transition m f t w) = idx m"
  "n_states (observe_transition m f t w) = n_states m"
  "smoothing (observe_transition m f t w) = smoothing m"
  by (simp_all add: observe_transition_def split: option.splits)

lemma transition_matrix_state:
  "model_ok m \<Longrightarrow> model_ok (snd (transition_matrix m))"
  "counts (snd (transition_matrix m)) = counts m"
  "idx (snd (transition_matrix m)) = idx m"
  "n_states (snd (transition_matrix m)) = n_states m"
  "smoothing (snd (transition_matrix m)) = smoothing m"
  by (auto simp: transition_matrix_def model_ok_def Let_def split: option.splits)

lemma predict_state:
  "snd (predict_distribution m s steps) = m \<or> snd (predict_distribution m s steps) = snd (transition_matrix m)"
  by (simp add: predict_distribution_def Let_def split: option.splits prod.splits)

lemma aperiodic_state: "snd (is_aperiodic m) = snd (transition_matrix m)"
  by (simp add: is_aperiodic_def Let_def split: prod.splits)

lemma apply_call_ok:
  assumes "model_ok m"
  shows "model_ok (apply_call m c) \<and> idx (apply_call m c) = idx m
       \<and> n_states (apply_call m c) = n_states m \<and> smoothing (apply_call m c) = smoothing m"
proof (cases c)
  case (Observe f t w)
  then show ?thesis using assms by (simp add: observe_model_ok observe_fields)
next
  case TransitionMatrix
  then show ?thesis using assms by (simp add: transition_matrix_state)
next
  case (Predict s steps)
  then show ?thesis
    using assms predict_state[of m s steps] by (auto simp: transition_matrix_state)
next
  case IsAperiodic
  then show ?thesis using assms by (simp add: aperiodic_state transition_matrix_state)
qed

lemma apply_calls_ok:
  "model_ok m \<Longrightarrow>
     model_ok (apply_calls m cs) \<and> idx (apply_calls m cs) = idx m
       \<and> n_states (apply_calls m cs) = n_states m \<and> smoothing (apply_calls m cs) = smoothing m"
proof (induction cs arbitrary: m)
  case Nil
  then show ?case by (simp add: apply_calls_def)
next
  case (Cons c cs)
  have step: "apply_calls m (c # cs) = apply_calls (apply_call m c) cs" by (simp add: apply_calls_def)
  from apply_call_ok[OF Cons.prems, of c] have ok: "model_ok (apply_call m c)" by simp
  from apply_call_ok[OF Cons.prems, of c] Cons.IH[OF ok] show ?case
    unfolding step by simp
qed

lemma reachable_model:
  assumes "OnlineMarkovModel_init sts sm = Inr m0"
  shows "model_ok (apply_calls m0 cs)"
    and "idx (apply_calls m0 cs) = mk_idx sts"
    and "n_states (apply_calls m0 cs) = length sts"
    and "smoothing (apply_calls m0 cs) = sm"
proof -
  from init_model_ok[OF assms] have ok: "model_ok m0"
    and f: "idx m0 = mk_idx sts" "n_states m0 = length sts" "smoothing m0 = sm"
    by simp_all
  from apply_calls_ok[OF ok, of cs] f
  show "model_ok (apply_calls m0 cs)" "idx (apply_calls m0 cs) = mk_idx sts"
    "n_states (apply_calls m0 cs) = length sts" "smoothing (apply_calls m0 cs) = sm"
    by simp_all
qed

lemma unknown_label_None: "s \<notin> set sts \<Longrightarrow> mk_idx sts s = None"
  using mk_idx_dom[of sts] by blast

text \<open>
  Claim C7. On a model built from a state list and brought to any state by calls, a
  label outside the state list, as source or as target, makes \<open>observe_transition\<close>
  return with the object unchanged (counts and cache alike), and makes
  \<open>predict_distribution\<close> return \<open>None\<close>, also leaving the object unchanged.
\<close>

theorem unknown_label_ignored_or_signalled:
  assumes "OnlineMarkovModel_init sts sm = Inr m0" and "m = apply_calls m0 cs" and "s \<notin> set sts"
  shows "observe_transition m s t w = m \<and> observe_transition m t s w = m
       \<and> predict_distribution m s steps = (None, m)"
proof -
  have "idx m s = None"
    using reachable_model(2)[OF assms(1), of cs] assms(2) unknown_label_None[OF assms(3)] by simp
  then show ?thesis
    by (simp add: observe_unknown predict_distribution_def)
qed













lemma example_model_init:
  "OnlineMarkovModel_init [''peak'', ''good''] (1 / 1000) = Inr example_model"
  by (simp add: OnlineMarkovModel_init_def example_model_def numeral_2_eq_2)



text \<open>
  Claim C7 at the label \<open>injured\<close>, which the model over \<open>peak\<close> and \<open>good\<close> does
  not know.
\<close>

theorem unknown_label_ignored_or_signalled_witness:
  "OnlineMarkovModel_init [''peak'', ''good''] (1 / 1000) = Inr example_model
   \<and> ''injured'' \<notin> set [''peak'', ''good'']
   \<and> observe_transition (apply_calls example_model example_calls) ''injured'' ''good'' 1
       = apply_calls example_model example_calls
   \<and> observe_transition (apply_calls example_model example_calls) ''good'' ''injured'' 1
       = apply_calls example_model example_calls
   \<and> predict_distribution (apply_calls example_model example_calls) ''injured'' 1
       = (None, apply_calls example_model example_calls)"
  using unknown_label_ignored_or_signalled[OF example_model_init refl,
          of "''injured''" example_calls "''good''" 1 1]
  by (simp add: example_model_init)


section \<open>Membership filter: no false negative\<close>

lemma set_bits_length: "length (fold (\<lambda>p bits. bits[p := True]) ps bits) = length bits"
  by (induction ps arbitrary: bits) simp_all

lemma set_bits_keeps: "bits ! i \<Longrightarrow> fold (\<lambda>p bits. bits[p := True]) ps bits ! i"
proof (induction ps arbitrary: bits)
  case Nil
  then show ?case by simp
next
  case (Cons p ps)
  have "(bits[p := True]) ! i"
  proof (cases "p < length bits")
    case True
    then show ?thesis using Cons.prems by (simp add: nth_list_update)
  next
    case False
    then have "bits[p := True] = bits" by (simp add: list_update_beyond)
    then show ?thesis using Cons.prems by simp
  qed
  then show ?case using Cons.IH by simp
qed

lemma set_bits_sets:
  "p \<in> set ps \<Longrightarrow> p < length bits \<Longrightarrow> fold (\<lambda>p bits. bits[p := True]) ps bits ! p"
proof (induction ps arbitrary: bits)
  case Nil
  then show ?case by simp
next
  case (Cons q ps)
  show ?case
  proof (cases "p = q")
    case True
    then have "(bits[q := True]) ! p" using Cons.prems(2) by simp
    then show ?thesis using set_bits_keeps by simp
  next
    case False
    with Cons.prems have "p \<in> set ps" "p < length (bits[q := True])" by simp_all
    then show ?thesis using Cons.IH by simp
  qed
qed

lemma bf_add_fields:
  "length (bitarray (bf_add h bf key)) = length (bitarray bf)"
  "bf_seeds (bf_add h bf key) = bf_seeds bf"
  by (simp_all add: bf_add_def set_bits_length)

lemma bit_positions_add: "bit_positions h (bf_add h bf k) key = bit_positions h bf key"
  by (simp add: bit_positions_def bf_add_fields)

lemma bf_add_keeps: "bitarray bf ! i \<Longrightarrow> bitarray (bf_add h bf key) ! i"
  by (simp add: bf_add_def set_bits_keeps)

lemma bf_add_contains:
  assumes "0 < length (bitarray bf)"
  shows "bf_contains h (bf_add h bf key) key"
proof -
  have "bitarray (bf_add h bf key) ! p" if "p \<in> set (bit_positions h bf key)" for p
  proof -
    from that have "p < length (bitarray bf)" using assms by (auto simp: bit_positions_def)
    with that show ?thesis by (simp add: bf_add_def set_bits_sets)
  qed
  then show ?thesis by (simp add: bf_contains_def bit_positions_add list_all_iff)
qed

lemma bf_add_keeps_contains: "bf_contains h bf key \<Longrightarrow> bf_contains h (bf_add h bf k) key"
  by (simp add: bf_contains_def bit_positions_add list_all_iff bf_add_keeps)

lemma mark_all_length:
  "length (bitarray (mark_all h bf keys)) = length (bitarray bf)"
  by (induction keys arbitrary: bf) (simp_all add: mark_all_def mark_play_analyzed_def bf_add_fields)

lemma mark_all_keeps_contains:
  "bf_contains h bf key \<Longrightarrow> bf_contains h (mark_all h bf keys) key"
  by (induction keys arbitrary: bf)
     (simp_all add: mark_all_def mark_play_analyzed_def bf_add_keeps_contains)

lemma mark_all_contains:
  "0 < length (bitarray bf) \<Longrightarrow> key \<in> set keys \<Longrightarrow> bf_contains h (mark_all h bf keys) key"
proof (induction keys arbitrary: bf)
  case Nil
  then show ?case by simp
next
  case (Cons k keys)
  have step: "mark_all h bf (k # keys) = mark_all h (bf_add h bf k) keys"
    by (simp add: mark_all_def mark_play_analyzed_def)
  have pos: "0 < length (bitarray (bf_add h bf k))" using Cons.prems(1) by (simp add: bf_add_fields)
  show ?case
  proof (cases "key = k")
    case True
    then show ?thesis
      unfolding step using bf_add_contains[OF Cons.prems(1)] mark_all_keeps_contains by simp
  next
    case False
    with Cons.prems have "key \<in> set keys" by simp
    then show ?thesis unfolding step using Cons.IH[OF pos] by simp
  qed
qed

text \<open>
  Claim C9. On a filter with at least one bit, after any sequence of
  \<open>mark_play_analyzed\<close> calls, \<open>check_play_analyzed\<close> is true for every key that was
  passed to one of them, whatever the hash function and the seeds are.
\<close>

theorem no_false_negative:
  assumes "0 < num_bits" and "key \<in> set keys"
  shows "check_play_analyzed bf_hash (mark_all bf_hash (BloomFilter_init num_bits sds) keys) key"
  using mark_all_contains[of "BloomFilter_init num_bits sds" key keys bf_hash] assms
  by (simp add: check_play_analyzed_def BloomFilter_init_def)

text \<open>Claim C9 on a filter of eight bits and three seeds, after three insertions.\<close>

theorem no_false_negative_witness:
  "(0::nat) < 8 \<and> ''play2'' \<in> set [''play1'', ''play2'', ''p3'']
   \<and> check_play_analyzed example_bf_hash
        (mark_all example_bf_hash (BloomFilter_init 8 [1, 2, 3]) [''play1'', ''play2'', ''p3'']) ''play2''"
  using no_false_negative[of 8 "''play2''" "[''play1'', ''play2'', ''p3'']" example_bf_hash "[1, 2, 3]"]
  by simp

section \<open>heapq keeps a heap; the sampler keeps the smallest hashes\<close>

lemma parent_pos_less: "0 < i \<Longrightarrow> parent_pos i < i"
  unfolding parent_pos_def by arith

lemma parent_pos_child: "0 < i \<Longrightarrow> parent_pos i = p \<longleftrightarrow> (i = 2 * p + 1 \<or> i = 2 * p + 2)"
  unfolding parent_pos_def by arith

lemma heap_holeI:
  assumes "pos < length h"
    and "\<And>i. 0 < i \<Longrightarrow> i < length h \<Longrightarrow> i \<noteq> pos \<Longrightarrow> parent_pos i \<noteq> pos \<Longrightarrow> h ! parent_pos i \<le> h ! i"
    and "\<And>i. 0 < pos \<Longrightarrow> 0 < i \<Longrightarrow> i < length h \<Longrightarrow> parent_pos i = pos \<Longrightarrow> h ! parent_pos pos \<le> h ! i"
  shows "heap_hole h pos"
  using assms unfolding heap_hole_def by blast

lemma heap_holeD:
  assumes "heap_hole h pos"
  shows "pos < length h"
    and "\<And>i. 0 < i \<Longrightarrow> i < length h \<Longrightarrow> i \<noteq> pos \<Longrightarrow> parent_pos i \<noteq> pos \<Longrightarrow> h ! parent_pos i \<le> h ! i"
    and "\<And>i. 0 < pos \<Longrightarrow> 0 < i \<Longrightarrow> i < length h \<Longrightarrow> parent_pos i = pos \<Longrightarrow> h ! parent_pos pos \<le> h ! i"
  using assms unfolding heap_hole_def by blast+

lemma is_heapD: "is_heap h \<Longrightarrow> 0 < i \<Longrightarrow> i < length h \<Longrightarrow> h ! parent_pos i \<le> h ! i"
  unfolding is_heap_def by blast

lemma above_childrenD:
  "above_children h pos x \<Longrightarrow> 0 < i \<Longrightarrow> i < length h \<Longrightarrow> parent_pos i = pos \<Longrightarrow> x \<le> h ! i"
  unfolding above_children_def by blast

text \<open>Filling the hole.\<close>

lemma fill_hole_is_heap:
  assumes hole: "heap_hole h pos" and ch: "above_children h pos x"
    and up: "0 < pos \<Longrightarrow> h ! parent_pos pos \<le> x"
  shows "is_heap (h[pos := x])"
  unfolding is_heap_def
proof (intro allI impI)
  fix i assume "0 < i \<and> i < length (h[pos := x])"
  then have i: "0 < i" "i < length h" by simp_all
  note pos = heap_holeD(1)[OF hole]
  have pi: "parent_pos i < length h" using parent_pos_less[OF i(1)] i(2) by simp
  show "h[pos := x] ! parent_pos i \<le> h[pos := x] ! i"
  proof (cases "i = pos")
    case True
    then have "parent_pos i \<noteq> pos" using parent_pos_less[OF i(1)] by simp
    then show ?thesis using True up i pos by simp
  next
    case False
    show ?thesis
    proof (cases "parent_pos i = pos")
      case True
      then show ?thesis using False above_childrenD[OF ch i True] pos i by simp
    next
      case np: False
      then show ?thesis using False heap_holeD(2)[OF hole i False np] by simp
    qed
  qed
qed

lemma swap_mset:
  assumes "a < length h" "b < length h" "a \<noteq> b"
  shows "mset (h[a := h ! b, b := x]) = mset (h[a := x])"
proof -
  let ?l = "h[a := x]"
  have "mset (?l[a := ?l ! b, b := ?l ! a]) = mset ?l"
    by (rule mset_swap) (use assms in simp_all)
  moreover have "?l[a := ?l ! b, b := ?l ! a] = h[a := h ! b, b := x]"
    using assms by simp
  ultimately show ?thesis by simp
qed


lemma heap_hole_update:
  assumes "heap_hole h pos"
  shows "heap_hole (h[pos := v]) pos"
proof (rule heap_holeI)
  show "pos < length (h[pos := v])" using heap_holeD(1)[OF assms] by simp
  {
    fix i assume i: "0 < i" "i < length (h[pos := v])" "i \<noteq> pos" "parent_pos i \<noteq> pos"
    then have "h ! parent_pos i \<le> h ! i" using heap_holeD(2)[OF assms, of i] by simp
    then show "h[pos := v] ! parent_pos i \<le> h[pos := v] ! i" using i(3,4) by simp
  }
  {
    fix i assume p: "0 < pos" and i: "0 < i" "i < length (h[pos := v])" "parent_pos i = pos"
    then have "h ! parent_pos pos \<le> h ! i" using heap_holeD(3)[OF assms, of i] by simp
    moreover have "i \<noteq> pos" using parent_pos_less[OF i(1)] i(3) by simp
    moreover have "parent_pos pos \<noteq> pos" using parent_pos_less[OF p] by simp
    ultimately show "h[pos := v] ! parent_pos pos \<le> h[pos := v] ! i" by simp
  }
qed

lemma above_children_update:
  assumes "above_children h pos x"
  shows "above_children (h[pos := v]) pos x"
  unfolding above_children_def
proof (intro allI impI)
  fix i assume "0 < i \<and> i < length (h[pos := v]) \<and> parent_pos i = pos"
  then have i: "0 < i" "i < length h" "parent_pos i = pos" by simp_all
  have "i \<noteq> pos" using parent_pos_less[OF i(1)] i(3) by simp
  then show "x \<le> h[pos := v] ! i" using above_childrenD[OF assms i] by simp
qed

text \<open>\<open>_siftdown\<close> towards the root.\<close>

lemma siftdown_step_hole:
  assumes hole: "heap_hole h pos" and pos: "0 < pos"
  shows "heap_hole (h[pos := h ! parent_pos pos]) (parent_pos pos)"
proof (rule heap_holeI)
  let ?pp = "parent_pos pos"
  note len = heap_holeD(1)[OF hole]
  have pp: "?pp < pos" using parent_pos_less[OF pos] .
  show "?pp < length (h[pos := h ! ?pp])" using pp len by simp
  have up: "h ! parent_pos ?pp \<le> h ! ?pp" if "0 < ?pp"
  proof -
    have "parent_pos ?pp < ?pp" using parent_pos_less[OF that] .
    then show ?thesis using heap_holeD(2)[OF hole that, of ] pp len by simp
  qed
  {
    fix i assume i: "0 < i" "i < length (h[pos := h ! ?pp])" "i \<noteq> ?pp" "parent_pos i \<noteq> ?pp"
    then have il: "i < length h" and ne: "i \<noteq> pos" by auto
    show "h[pos := h ! ?pp] ! parent_pos i \<le> h[pos := h ! ?pp] ! i"
    proof (cases "parent_pos i = pos")
      case True
      then show ?thesis using heap_holeD(3)[OF hole pos i(1) il True] ne len by simp
    next
      case False
      then show ?thesis using heap_holeD(2)[OF hole i(1) il ne False] ne by simp
    qed
  }
  {
    fix i assume pp0: "0 < ?pp" and i: "0 < i" "i < length (h[pos := h ! ?pp])" "parent_pos i = ?pp"
    then have il: "i < length h" by simp
    have ppp: "parent_pos ?pp \<noteq> pos" using parent_pos_less[OF pp0] pp by simp
    have "h ! ?pp \<le> h[pos := h ! ?pp] ! i"
    proof (cases "i = pos")
      case True
      then show ?thesis using len by simp
    next
      case False
      have "parent_pos i \<noteq> pos" using i(3) pp by simp
      from heap_holeD(2)[OF hole i(1) il False this] show ?thesis using False i(3) by simp
    qed
    with up[OF pp0] show "h[pos := h ! ?pp] ! parent_pos ?pp \<le> h[pos := h ! ?pp] ! i"
      using ppp by simp
  }
qed

lemma siftdown_step_children:
  assumes hole: "heap_hole h pos" and pos: "0 < pos" and lt: "x < h ! parent_pos pos"
  shows "above_children (h[pos := h ! parent_pos pos]) (parent_pos pos) x"
  unfolding above_children_def
proof (intro allI impI)
  let ?pp = "parent_pos pos"
  fix i assume "0 < i \<and> i < length (h[pos := h ! ?pp]) \<and> parent_pos i = ?pp"
  then have i: "0 < i" "i < length h" "parent_pos i = ?pp" by simp_all
  note len = heap_holeD(1)[OF hole]
  have pp: "?pp < pos" using parent_pos_less[OF pos] .
  show "x \<le> h[pos := h ! ?pp] ! i"
  proof (cases "i = pos")
    case True
    then show ?thesis using lt len by simp
  next
    case False
    have "parent_pos i \<noteq> pos" using i(3) pp by simp
    from heap_holeD(2)[OF hole i(1,2) False this] show ?thesis using False i(3) lt by simp
  qed
qed

lemma siftdown_loop_unfold:
  "siftdown_loop h 0 x pos =
     (if 0 < pos \<and> x < h ! parent_pos pos
      then siftdown_loop (h[pos := h ! parent_pos pos]) 0 x (parent_pos pos)
      else h[pos := x])"
  by (subst siftdown_loop.simps) (simp add: parent_pos_def Let_def)

lemma siftdown_loop_heap:
  "heap_hole h pos \<Longrightarrow> above_children h pos x \<Longrightarrow>
     is_heap (siftdown_loop h 0 x pos) \<and> mset (siftdown_loop h 0 x pos) = mset (h[pos := x])"
proof (induction pos arbitrary: h rule: less_induct)
  case (less pos)
  let ?pp = "parent_pos pos"
  note len = heap_holeD(1)[OF less.prems(1)]
  show ?case
  proof (cases "0 < pos \<and> x < h ! ?pp")
    case True
    then have pos: "0 < pos" and lt: "x < h ! ?pp" by simp_all
    have pp: "?pp < pos" using parent_pos_less[OF pos] .
    have unfold: "siftdown_loop h 0 x pos = siftdown_loop (h[pos := h ! ?pp]) 0 x ?pp"
      by (rule trans[OF siftdown_loop_unfold]) (simp add: pos lt)
    from less.IH[OF pp siftdown_step_hole[OF less.prems(1) pos]
                 siftdown_step_children[OF less.prems(1) pos lt]]
    have ih: "is_heap (siftdown_loop (h[pos := h ! ?pp]) 0 x ?pp)"
      "mset (siftdown_loop (h[pos := h ! ?pp]) 0 x ?pp) = mset (h[pos := h ! ?pp, ?pp := x])"
      by simp_all
    have "mset (h[pos := h ! ?pp, ?pp := x]) = mset (h[pos := x])"
      using swap_mset[of pos h ?pp x] len pp by simp
    with ih show ?thesis unfolding unfold by simp
  next
    case False
    have unfold: "siftdown_loop h 0 x pos = h[pos := x]"
      by (rule trans[OF siftdown_loop_unfold]) (use False in auto)
    have "is_heap (h[pos := x])"
      using less.prems False by (intro fill_hole_is_heap) auto
    then show ?thesis unfolding unfold by simp
  qed
qed

text \<open>\<open>_siftup\<close>: the smaller child moves into the hole until the hole is a leaf.\<close>

lemma siftup_step_hole:
  assumes hole: "heap_hole h pos"
    and c: "c < length h" "0 < c" "parent_pos c = pos"
    and least: "\<And>i. 0 < i \<Longrightarrow> i < length h \<Longrightarrow> parent_pos i = pos \<Longrightarrow> h ! c \<le> h ! i"
  shows "heap_hole (h[pos := h ! c]) c"
proof (rule heap_holeI)
  note len = heap_holeD(1)[OF hole]
  have pc: "pos < c" using parent_pos_less[OF c(2)] c(3) by simp
  show "c < length (h[pos := h ! c])" using c(1) by simp
  {
    fix i assume i: "0 < i" "i < length (h[pos := h ! c])" "i \<noteq> c" "parent_pos i \<noteq> c"
    then have il: "i < length h" by simp
    show "h[pos := h ! c] ! parent_pos i \<le> h[pos := h ! c] ! i"
    proof (cases "i = pos")
      case True
      then have "parent_pos i \<noteq> pos" using parent_pos_less[OF i(1)] by simp
      moreover have "h ! parent_pos pos \<le> h ! c"
        using heap_holeD(3)[OF hole _ c(2,1,3)] True i(1) by simp
      ultimately show ?thesis using True len by simp
    next
      case False
      show ?thesis
      proof (cases "parent_pos i = pos")
        case True
        then show ?thesis using least[OF i(1) il True] False len by simp
      next
        case np: False
        then show ?thesis using heap_holeD(2)[OF hole i(1) il False np] False by simp
      qed
    qed
  }
  {
    fix i assume i: "0 < i" "i < length (h[pos := h ! c])" "parent_pos i = c"
    then have il: "i < length h" by simp
    have "c < i" using parent_pos_less[OF i(1)] i(3) by simp
    then have ne: "i \<noteq> pos" using pc by simp
    have "parent_pos i \<noteq> pos" using i(3) pc by simp
    from heap_holeD(2)[OF hole i(1) il ne this]
    show "h[pos := h ! c] ! parent_pos c \<le> h[pos := h ! c] ! i"
      using ne c(3) i(3) len by simp
  }
qed

lemma siftup_loop_unfold:
  "siftup_loop h endpos pos =
     (if 2 * pos + 1 < endpos
      then siftup_loop (h[pos := h ! smaller_child h endpos pos]) endpos (smaller_child h endpos pos)
      else (pos, h))"
  by (subst siftup_loop.simps) (simp add: smaller_child_def Let_def)

lemma smaller_child_props:
  assumes "2 * pos + 1 < length h"
  shows "smaller_child h (length h) pos < length h"
    and "0 < smaller_child h (length h) pos"
    and "parent_pos (smaller_child h (length h) pos) = pos"
    and "pos < smaller_child h (length h) pos"
    and "\<And>i. 0 < i \<Longrightarrow> i < length h \<Longrightarrow> parent_pos i = pos \<Longrightarrow>
           h ! smaller_child h (length h) pos \<le> h ! i"
proof -
  let ?c = "smaller_child h (length h) pos"
  have c: "?c = 2 * pos + 1 \<or> ?c = 2 * pos + 2" by (simp add: smaller_child_def)
  show "?c < length h" using assms by (simp add: smaller_child_def)
  show "0 < ?c" using c by auto
  show "parent_pos ?c = pos" using c parent_pos_child[of ?c pos] by auto
  show "pos < ?c" using c by auto
  fix i assume i: "0 < i" "i < length h" "parent_pos i = pos"
  then have "i = 2 * pos + 1 \<or> i = 2 * pos + 2" using parent_pos_child[of i pos] by simp
  then show "h ! ?c \<le> h ! i"
  proof
    assume "i = 2 * pos + 1"
    then show ?thesis by (auto simp: smaller_child_def not_less)
  next
    assume "i = 2 * pos + 2"
    then show ?thesis using i(2) by (auto simp: smaller_child_def)
  qed
qed

lemma siftup_loop_hole:
  "heap_hole h pos \<Longrightarrow>
     (case siftup_loop h (length h) pos of
        (pos', h') \<Rightarrow> heap_hole h' pos' \<and> length h' = length h \<and>
          (\<forall>x. above_children h' pos' x \<and> mset (h'[pos' := x]) = mset (h[pos := x])))"
proof (induction "length h - pos" arbitrary: h pos rule: less_induct)
  case less
  let ?c = "smaller_child h (length h) pos"
  let ?g = "h[pos := h ! ?c]"
  note len = heap_holeD(1)[OF less.prems]
  show ?case
  proof (cases "2 * pos + 1 < length h")
    case True
    note c = smaller_child_props[OF True]
    have unfold: "siftup_loop h (length h) pos = siftup_loop ?g (length ?g) ?c"
      by (rule trans[OF siftup_loop_unfold]) (use True in simp)
    have hole': "heap_hole ?g ?c"
      using siftup_step_hole[OF less.prems c(1,2,3) c(5)] by blast
    have smaller: "length ?g - ?c < length h - pos" using c(1,4) by simp
    obtain pos' h' where r: "siftup_loop ?g (length ?g) ?c = (pos', h')"
      by (cases "siftup_loop ?g (length ?g) ?c")
    from less.hyps[OF smaller hole'] r
    have ih: "heap_hole h' pos'" "length h' = length h"
      "\<And>x. above_children h' pos' x" "\<And>x. mset (h'[pos' := x]) = mset (h[pos := h ! ?c, ?c := x])"
      by simp_all
    have "mset (h[pos := h ! ?c, ?c := x]) = mset (h[pos := x])" for x
      using swap_mset[of pos h ?c x] len c(1,4) by simp
    with ih show ?thesis unfolding unfold r by simp
  next
    case False
    have unfold: "siftup_loop h (length h) pos = (pos, h)"
      by (rule trans[OF siftup_loop_unfold]) (use False in simp)
    have "above_children h pos x" for x
      unfolding above_children_def
    proof (intro allI impI)
      fix i assume "0 < i \<and> i < length h \<and> parent_pos i = pos"
      then have "i = 2 * pos + 1 \<or> i = 2 * pos + 2" "i < length h"
        using parent_pos_child[of i pos] by simp_all
      with False show "x \<le> h ! i" by auto
    qed
    then show ?thesis unfolding unfold using less.prems by simp
  qed
qed

text \<open>\<open>heappush\<close> and \<open>heapreplace\<close> keep the heap invariant.\<close>

lemma heappush_heap:
  assumes "is_heap h"
  shows "is_heap (heappush h x)" and "mset (heappush h x) = add_mset x (mset h)"
proof -
  let ?g = "h @ [x]"
  have hole: "heap_hole ?g (length h)"
  proof (rule heap_holeI)
    show "length h < length ?g" by simp
    {
      fix i assume i: "0 < i" "i < length ?g" "i \<noteq> length h" "parent_pos i \<noteq> length h"
      then have il: "i < length h" by simp
      then have "parent_pos i < length h" using parent_pos_less[OF i(1)] by simp
      then show "?g ! parent_pos i \<le> ?g ! i" using is_heapD[OF assms i(1) il] il by (simp add: nth_append)
    }
    {
      fix i assume i: "0 < i" "i < length ?g" "parent_pos i = length h"
      then have False using parent_pos_less[OF i(1)] by simp
      then show "?g ! parent_pos (length h) \<le> ?g ! i" ..
    }
  qed
  have ch: "above_children ?g (length h) x"
    unfolding above_children_def
  proof (intro allI impI)
    fix i assume "0 < i \<and> i < length ?g \<and> parent_pos i = length h"
    then have "0 < i" "i < Suc (length h)" "parent_pos i = length h" by simp_all
    then have False using parent_pos_less[of i] by simp
    then show "x \<le> ?g ! i" ..
  qed
  have eq: "heappush h x = siftdown_loop ?g 0 x (length h)"
    by (simp add: heappush_def siftdown_def)
  from siftdown_loop_heap[OF hole ch]
  show "is_heap (heappush h x)" and "mset (heappush h x) = add_mset x (mset h)"
    unfolding eq by simp_all
qed

lemma siftup_root_heap:
  assumes "is_heap h" "h \<noteq> []"
  shows "is_heap (siftup (h[0 := x]) 0)" and "mset (siftup (h[0 := x]) 0) = mset (h[0 := x])"
proof -
  let ?g = "h[0 := x]"
  have hole: "heap_hole ?g 0"
  proof (rule heap_holeI)
    show "0 < length ?g" using assms(2) by simp
    {
      fix i assume i: "0 < i" "i < length ?g" "i \<noteq> 0" "parent_pos i \<noteq> 0"
      then show "?g ! parent_pos i \<le> ?g ! i" using is_heapD[OF assms(1), of i] by simp
    }
    {
      fix i :: nat assume "(0::nat) < 0"
      then show "?g ! parent_pos 0 \<le> ?g ! i" by simp
    }
  qed
  obtain pos' h' where r: "siftup_loop ?g (length ?g) 0 = (pos', h')"
    by (cases "siftup_loop ?g (length ?g) 0")
  from siftup_loop_hole[OF hole] r
  have l: "heap_hole h' pos'" "length h' = length ?g" "\<And>y. above_children h' pos' y"
    "\<And>y. mset (h'[pos' := y]) = mset (?g[0 := y])"
    by simp_all
  have pos': "pos' < length h'" using heap_holeD(1)[OF l(1)] .
  have r': "siftup_loop ?g (length h) 0 = (pos', h')" using r by simp
  have eq: "siftup ?g 0 = siftdown_loop (h'[pos' := x]) 0 x pos'"
    using assms(2) pos' by (simp add: siftup_def r' siftdown_def)
  have hole2: "heap_hole (h'[pos' := x]) pos'" using l(1) by (simp add: heap_hole_update)
  have ch2: "above_children (h'[pos' := x]) pos' x" using l(3) by (simp add: above_children_update)
  from siftdown_loop_heap[OF hole2 ch2] l(4)[of x]
  show "is_heap (siftup ?g 0)" and "mset (siftup ?g 0) = mset ?g"
    unfolding eq by simp_all
qed

lemma heapreplace_heap:
  assumes "is_heap h" "h \<noteq> []"
  shows "\<exists>h'. heapreplace h x = Inr (h ! 0, h') \<and> is_heap h' \<and> mset h' = mset (h[0 := x])"
proof -
  have "py_get h 0 = Inr (h ! 0)" using assms(2) by (simp add: py_get_def py_index_def)
  then show ?thesis using siftup_root_heap[OF assms, of x] by (simp add: heapreplace_def)
qed

lemma heap_root_least: "is_heap h \<Longrightarrow> i < length h \<Longrightarrow> h ! 0 \<le> h ! i"
proof (induction i rule: less_induct)
  case (less i)
  show ?case
  proof (cases "i = 0")
    case True
    then show ?thesis by simp
  next
    case False
    then have i: "0 < i" by simp
    have p: "parent_pos i < i" using parent_pos_less[OF i] .
    have "h ! 0 \<le> h ! parent_pos i" using less.IH[OF p less.prems(1)] p less.prems(2) by simp
    also have "\<dots> \<le> h ! i" using is_heapD[OF less.prems(1) i less.prems(2)] .
    finally show ?thesis .
  qed
qed


text \<open>The sampler.\<close>

lemma entry_simps: "fst (entry hf x) = - int (hf x)" "snd (entry hf x) = x"
  by (simp_all add: entry_def)

lemma entry_inj: "entry hf x = entry hf y \<longleftrightarrow> x = y"
  by (auto simp: entry_def)

lemma fst_mono_prod: "(p :: int \<times> string) \<le> q \<Longrightarrow> fst p \<le> fst q"
  by (cases p; cases q) (auto simp: less_eq_prod_def)

lemma sampler_invD:
  assumes "sampler_inv hf k ys H"
  shows "is_heap H" and "distinct H" and "set H \<subseteq> entry hf ` set ys"
    and "int (length H) = min k (int (length ys))"
    and "\<And>x e. x \<in> set ys \<Longrightarrow> entry hf x \<notin> set H \<Longrightarrow> e \<in> set H \<Longrightarrow> - fst e \<le> int (hf x)"
  using assms unfolding sampler_inv_def by blast+

lemma sampler_invI:
  assumes "is_heap H" and "distinct H" and "set H \<subseteq> entry hf ` set ys"
    and "int (length H) = min k (int (length ys))"
    and "\<And>x e. x \<in> set ys \<Longrightarrow> entry hf x \<notin> set H \<Longrightarrow> e \<in> set H \<Longrightarrow> - fst e \<le> int (hf x)"
  shows "sampler_inv hf k ys H"
  using assms unfolding sampler_inv_def by blast

lemma all_kept_when_short:
  assumes inv: "sampler_inv hf k ys H" and d: "distinct ys" and short: "int (length H) < k"
  shows "set H = entry hf ` set ys"
proof -
  have len: "length H = length ys" using sampler_invD(4)[OF inv] short by simp
  have "card (set H) = length H" using sampler_invD(2)[OF inv] by (simp add: distinct_card)
  moreover have "card (entry hf ` set ys) = length ys"
    using d by (simp add: card_image inj_on_def entry_inj distinct_card)
  ultimately have "card (entry hf ` set ys) \<le> card (set H)" using len by simp
  with sampler_invD(3)[OF inv] show ?thesis by (simp add: card_seteq)
qed

lemma consider_push:
  assumes inv: "sampler_inv hf k ys (heap s)" and k: "k_mw s = k"
    and d: "distinct (ys @ [x])" and short: "int (length (heap s)) < k"
  shows "\<exists>s'. consider_item hf s x = Inr s' \<and> k_mw s' = k \<and> sampler_inv hf k (ys @ [x]) (heap s')"
proof -
  let ?H = "heap s"
  let ?H' = "heappush ?H (entry hf x)"
  have dy: "distinct ys" and xn: "x \<notin> set ys" using d by simp_all
  have r: "consider_item hf s x = Inr (s\<lparr>heap := ?H'\<rparr>)"
    using short k by (simp add: consider_item_def entry_def Let_def)
  have hp: "is_heap ?H'" and ms: "mset ?H' = add_mset (entry hf x) (mset ?H)"
    using heappush_heap[OF sampler_invD(1)[OF inv]] by simp_all
  have all: "set ?H = entry hf ` set ys" by (rule all_kept_when_short[OF inv dy short])
  have fresh: "entry hf x \<notin> set ?H" using all xn by (auto simp: entry_inj)
  have set': "set ?H' = insert (entry hf x) (set ?H)"
    using ms by (metis set_mset_add_mset_insert set_mset_mset)
  have dist': "distinct ?H'"
    using ms fresh sampler_invD(2)[OF inv] by (metis distinct.simps(2) mset.simps(2) mset_eq_imp_distinct_iff)
  have len': "length ?H' = Suc (length ?H)"
    using ms by (metis size_add_mset size_mset)
  have "sampler_inv hf k (ys @ [x]) ?H'"
  proof (rule sampler_invI)
    show "is_heap ?H'" by (rule hp)
    show "distinct ?H'" by (rule dist')
    show "set ?H' \<subseteq> entry hf ` set (ys @ [x])" using set' all by auto
    show "int (length ?H') = min k (int (length (ys @ [x])))"
      using len' sampler_invD(4)[OF inv] short by simp
  next
    fix x' e assume "x' \<in> set (ys @ [x])" "entry hf x' \<notin> set ?H'" "e \<in> set ?H'"
    then have False using set' all by auto
    then show "- fst e \<le> int (hf x')" ..
  qed
  with r k show ?thesis by simp
qed

lemma consider_full:
  assumes inv: "sampler_inv hf k ys (heap s)" and k: "k_mw s = k" and kpos: "0 < k"
    and d: "distinct (ys @ [x])" and full: "\<not> int (length (heap s)) < k"
  shows "\<exists>s'. consider_item hf s x = Inr s' \<and> k_mw s' = k \<and> sampler_inv hf k (ys @ [x]) (heap s')"
proof -
  let ?H = "heap s"
  let ?t = "?H ! 0"
  have xn: "x \<notin> set ys" using d by simp
  have lenk: "int (length ?H) = k" using sampler_invD(4)[OF inv] full by simp
  then have ne: "?H \<noteq> []" using kpos by auto
  have lenys: "k \<le> int (length ys)" using sampler_invD(4)[OF inv] lenk by simp
  have hp: "is_heap ?H" by (rule sampler_invD(1)[OF inv])
  have tin: "?t \<in> set ?H" using ne by simp
  have least: "fst ?t \<le> fst e" if "e \<in> set ?H" for e
  proof -
    from that obtain i where "i < length ?H" "e = ?H ! i" by (auto simp: in_set_conv_nth)
    then show ?thesis using heap_root_least[OF hp, of i] fst_mono_prod by simp
  qed
  have get: "py_get ?H 0 = Inr ?t" using ne by (simp add: py_get_def py_index_def)
  have fresh: "entry hf x \<notin> set ?H" using sampler_invD(3)[OF inv] xn by (auto simp: entry_inj)
  show ?thesis
  proof (cases "int (hf x) < - fst ?t")
    case True
    from heapreplace_heap[OF hp ne, of "entry hf x"] obtain H' where
      hr: "heapreplace ?H (entry hf x) = Inr (?t, H')" and hp': "is_heap H'"
      and ms: "mset H' = mset (?H[0 := entry hf x])" by blast
    have r: "consider_item hf s x = Inr (s\<lparr>heap := H'\<rparr>)"
      using full k get True hr by (simp add: consider_item_def entry_def Let_def)
    have dH: "distinct ?H" by (rule sampler_invD(2)[OF inv])
    have Hc: "?H = ?t # tl ?H" using ne by (cases ?H) simp_all
    have upd: "?H[0 := entry hf x] = entry hf x # tl ?H"
      by (subst Hc) simp
    have tl_set: "set (tl ?H) = set ?H - {?t}"
    proof -
      have "?t \<notin> set (tl ?H)" using dH by (subst (asm) Hc) simp
      moreover have "set ?H = insert ?t (set (tl ?H))" by (subst Hc) simp
      ultimately show ?thesis by auto
    qed
    have set': "set H' = insert (entry hf x) (set ?H - {?t})"
      using mset_eq_setD[OF ms] unfolding upd by (simp add: tl_set)
    have len': "length H' = length ?H"
      using mset_eq_length[OF ms] by simp
    have dist': "distinct H'"
    proof -
      have "distinct (entry hf x # tl ?H)"
        using fresh dH tl_set by (simp add: distinct_tl)
      then show ?thesis using mset_eq_imp_distinct_iff[OF ms] unfolding upd by simp
    qed
    have "sampler_inv hf k (ys @ [x]) H'"
    proof (rule sampler_invI)
      show "is_heap H'" by (rule hp')
      show "distinct H'" by (rule dist')
      show "set H' \<subseteq> entry hf ` set (ys @ [x])" using set' sampler_invD(3)[OF inv] by auto
      show "int (length H') = min k (int (length (ys @ [x])))" using len' lenk lenys by simp
    next
      fix x' e assume x': "x' \<in> set (ys @ [x])" and out: "entry hf x' \<notin> set H'" and e: "e \<in> set H'"
      from out set' have "x' \<noteq> x" by auto
      with x' have x'y: "x' \<in> set ys" by simp
      have top_le: "- fst ?t \<le> int (hf x')"
      proof (cases "entry hf x' = ?t")
        case True
        then show ?thesis by (metis entry_simps(1) minus_minus order_refl)
      next
        case False
        with out set' have "entry hf x' \<notin> set ?H" by auto
        from sampler_invD(5)[OF inv x'y this tin] show ?thesis .
      qed
      from e set' have "e = entry hf x \<or> e \<in> set ?H" by auto
      then show "- fst e \<le> int (hf x')"
      proof
        assume "e = entry hf x"
        then show ?thesis using True top_le by (simp add: entry_simps)
      next
        assume "e \<in> set ?H"
        from least[OF this] top_le show ?thesis by simp
      qed
    qed
    with r k show ?thesis by simp
  next
    case False
    have r: "consider_item hf s x = Inr s"
      using full k get False by (simp add: consider_item_def Let_def)
    have "sampler_inv hf k (ys @ [x]) ?H"
    proof (rule sampler_invI)
      show "is_heap ?H" by (rule hp)
      show "distinct ?H" by (rule sampler_invD(2)[OF inv])
      show "set ?H \<subseteq> entry hf ` set (ys @ [x])" using sampler_invD(3)[OF inv] by auto
      show "int (length ?H) = min k (int (length (ys @ [x])))" using lenk lenys by simp
    next
      fix x' e assume x': "x' \<in> set (ys @ [x])" and out: "entry hf x' \<notin> set ?H" and e: "e \<in> set ?H"
      show "- fst e \<le> int (hf x')"
      proof (cases "x' = x")
        case True
        then show ?thesis using least[OF e] False by simp
      next
        case False
        with x' have "x' \<in> set ys" by simp
        from sampler_invD(5)[OF inv this out e] show ?thesis .
      qed
    qed
    with r k show ?thesis by simp
  qed
qed

lemma consider_step:
  assumes "sampler_inv hf k ys (heap s)" "k_mw s = k" "0 < k" "distinct (ys @ [x])"
  shows "\<exists>s'. consider_item hf s x = Inr s' \<and> k_mw s' = k \<and> sampler_inv hf k (ys @ [x]) (heap s')"
  using consider_push[OF assms(1,2,4)] consider_full[OF assms] by blast

lemma consider_all_inv:
  "sampler_inv hf k ys (heap s) \<Longrightarrow> k_mw s = k \<Longrightarrow> 0 < k \<Longrightarrow> distinct (ys @ xs) \<Longrightarrow>
     \<exists>s'. consider_all hf s xs = Inr s' \<and> k_mw s' = k \<and> sampler_inv hf k (ys @ xs) (heap s')"
proof (induction xs arbitrary: ys s)
  case Nil
  then show ?case by simp
next
  case (Cons x xs)
  have d1: "distinct (ys @ [x])" using Cons.prems(4) by simp
  from consider_step[OF Cons.prems(1,2,3) d1] obtain s1 where
    s1: "consider_item hf s x = Inr s1" "k_mw s1 = k" "sampler_inv hf k (ys @ [x]) (heap s1)"
    by blast
  have d2: "distinct ((ys @ [x]) @ xs)" using Cons.prems(4) by simp
  from Cons.IH[OF s1(3) s1(2) Cons.prems(3) d2] s1(1) show ?case by simp
qed

lemma init_sampler_inv: "sampler_inv hf k [] (heap (MinWiseSampler_init k)) \<longleftrightarrow> 0 \<le> k"
  by (auto simp: sampler_inv_def MinWiseSampler_init_def is_heap_def)


text \<open>
  Claim C8. For a sampler of size \<open>k \<ge> 1\<close>, after \<open>consider\<close> has been called on
  \<open>N > k\<close> distinct items every call has returned, \<open>sample()\<close> holds exactly \<open>k\<close>
  distinct items, all of them considered, and every item left out has a hash at least
  as large as every item kept: the sample is the \<open>k\<close> smallest hashes. An item whose
  hash is not strictly below the largest hash kept, a tie included, leaves the sampler
  as it is.
\<close>

theorem k_smallest_hashes_retained:
  assumes "0 < k" and "distinct xs" and "k < int (length xs)"
  shows "\<exists>s. consider_all hf (MinWiseSampler_init k) xs = Inr s
           \<and> length (sample s) = nat k \<and> distinct (sample s) \<and> set (sample s) \<subseteq> set xs
           \<and> (\<forall>x \<in> set xs - set (sample s). \<forall>y \<in> set (sample s). hf y \<le> hf x)
           \<and> (\<forall>z. (\<forall>y \<in> set (sample s). hf y \<le> hf z) \<longrightarrow> consider_item hf s z = Inr s)"
proof -
  have inv0: "sampler_inv hf k [] (heap (MinWiseSampler_init k))"
    using init_sampler_inv[of hf k] assms(1) by simp
  have k0: "k_mw (MinWiseSampler_init k) = k" by (simp add: MinWiseSampler_init_def)
  have d0: "distinct ([] @ xs)" using assms(2) by simp
  from consider_all_inv[OF inv0 k0 assms(1) d0] obtain s where
    s: "consider_all hf (MinWiseSampler_init k) xs = Inr s" "k_mw s = k"
       "sampler_inv hf k xs (heap s)"
    by auto
  let ?H = "heap s"
  have len: "int (length ?H) = k" using sampler_invD(4)[OF s(3)] assms(3) by simp
  have ent: "e = entry hf (snd e) \<and> snd e \<in> set xs" if "e \<in> set ?H" for e
    using sampler_invD(3)[OF s(3)] that by (auto simp: entry_simps)
  have mem: "y \<in> set (sample s) \<longleftrightarrow> entry hf y \<in> set ?H" for y
  proof
    assume "y \<in> set (sample s)"
    then obtain e where "e \<in> set ?H" "y = snd e" by (auto simp: sample_def)
    then show "entry hf y \<in> set ?H" using ent[of e] by simp
  next
    assume "entry hf y \<in> set ?H"
    then have "snd (entry hf y) \<in> set (sample s)" unfolding sample_def by (metis image_eqI set_map)
    then show "y \<in> set (sample s)" by (simp add: entry_simps)
  qed
  have l: "length (sample s) = nat k" using len by (simp add: sample_def)
  have "inj_on snd (set ?H)"
  proof (rule inj_onI)
    fix a b assume "a \<in> set ?H" "b \<in> set ?H" "snd a = snd b"
    then show "a = b" using ent[of a] ent[of b] by simp
  qed
  then have d: "distinct (sample s)"
    using sampler_invD(2)[OF s(3)] by (simp add: sample_def distinct_map)
  have sub: "set (sample s) \<subseteq> set xs" using ent by (auto simp: sample_def)
  have small: "hf y \<le> hf x" if "x \<in> set xs - set (sample s)" "y \<in> set (sample s)" for x y
  proof -
    from that have "x \<in> set xs" "entry hf x \<notin> set ?H" "entry hf y \<in> set ?H" using mem by auto
    from sampler_invD(5)[OF s(3) this] show ?thesis by (simp add: entry_simps)
  qed
  have tie: "consider_item hf s z = Inr s" if "\<forall>y \<in> set (sample s). hf y \<le> hf z" for z
  proof -
    have ne: "?H \<noteq> []" using len assms(1) by auto
    then have tin: "?H ! 0 \<in> set ?H" by simp
    then have "snd (?H ! 0) \<in> set (sample s)" unfolding sample_def by (metis image_eqI set_map)
    with that have "hf (snd (?H ! 0)) \<le> hf z" by blast
    moreover have "fst (?H ! 0) = - int (hf (snd (?H ! 0)))"
      using ent[OF tin] by (metis entry_simps(1))
    ultimately have nl: "\<not> int (hf z) < - fst (?H ! 0)" by simp
    have get: "py_get ?H 0 = Inr (?H ! 0)" using ne by (simp add: py_get_def py_index_def)
    show ?thesis using len s(2) get nl by (simp add: consider_item_def Let_def)
  qed
  from s(1) l d sub small tie show ?thesis by blast
qed

lemma example_sampler_run:
  "consider_all example_hash_item (MinWiseSampler_init 2) [''aaa'', ''b'', ''cc'', ''dddd'']
     = Inr \<lparr> k_mw = 2, heap = [(- 2, ''cc''), (- 1, ''b'')] \<rparr>"
  by code_simp

text \<open>
  Claim C8 for \<open>k = 2\<close> and four items hashed by their length: the items of hashes
  2 and 1 are kept, and a further item of hash 2, a tie with the largest kept, changes
  nothing.
\<close>

theorem k_smallest_hashes_retained_witness:
  "(0::int) < 2 \<and> distinct [''aaa'', ''b'', ''cc'', ''dddd'']
   \<and> (2::int) < int (length [''aaa'', ''b'', ''cc'', ''dddd''])
   \<and> consider_all example_hash_item (MinWiseSampler_init 2) [''aaa'', ''b'', ''cc'', ''dddd'']
       = Inr \<lparr> k_mw = 2, heap = [(- 2, ''cc''), (- 1, ''b'')] \<rparr>
   \<and> sample \<lparr> k_mw = 2, heap = [(- 2, ''cc''), (- 1, ''b'')] \<rparr> = [''cc'', ''b'']
   \<and> (\<exists>s. consider_all example_hash_item (MinWiseSampler_init 2) [''aaa'', ''b'', ''cc'', ''dddd''] = Inr s
          \<and> length (sample s) = 2 \<and> distinct (sample s)
          \<and> consider_item example_hash_item s ''zz'' = Inr s)"
proof -
  have h: "(0::int) < 2" "distinct [''aaa'', ''b'', ''cc'', ''dddd'']"
    "(2::int) < int (length [''aaa'', ''b'', ''cc'', ''dddd''])"
    by simp_all
  from k_smallest_hashes_retained[OF h, of example_hash_item] obtain s where
    s: "consider_all example_hash_item (MinWiseSampler_init 2) [''aaa'', ''b'', ''cc'', ''dddd''] = Inr s"
       "length (sample s) = nat 2" "distinct (sample s)"
       "\<forall>z. (\<forall>y \<in> set (sample s). example_hash_item y \<le> example_hash_item z) \<longrightarrow>
            consider_item example_hash_item s z = Inr s"
    by blast
  have se: "s = \<lparr> k_mw = 2, heap = [(- 2, ''cc''), (- 1, ''b'')] \<rparr>"
    using s(1) unfolding example_sampler_run by simp
  have "\<forall>y \<in> set (sample s). example_hash_item y \<le> example_hash_item ''zz''"
    unfolding se by (simp add: sample_def example_hash_item_def)
  with s(4) have "consider_item example_hash_item s ''zz'' = Inr s" by blast
  with s(1,2,3) have "\<exists>s. consider_all example_hash_item (MinWiseSampler_init 2) [''aaa'', ''b'', ''cc'', ''dddd''] = Inr s
          \<and> length (sample s) = 2 \<and> distinct (sample s)
          \<and> consider_item example_hash_item s ''zz'' = Inr s"
    by auto
  moreover have "sample \<lparr> k_mw = 2, heap = [(- 2, ''cc''), (- 1, ''b'')] \<rparr> = [''cc'', ''b'']"
    by (simp add: sample_def)
  ultimately show ?thesis using h example_sampler_run by blast
qed

end
